theory Spec2Isabelle
  imports Complex_Main "HOL-Library.AList"
begin

section \<open>JavaScript values as the viewers use them\<close>

text \<open>
  The JSONL viewer (\<^verbatim>\<open>JsonlViewer\<close>, in its folder-backed version with autosave and in its
  upload/download version) holds the lines of a file as the values \<^verbatim>\<open>JSON.parse\<close> returned.
  An object is the list of its own enumerable properties in the order the runtime keeps;
  a number is read by the program only for its truthiness.

  \<^verbatim>\<open>JSON.parse\<close> and \<^verbatim>\<open>JSON.stringify\<close> belong to the runtime, not to the repository: they are
  parameters \<open>parse\<close> (with \<open>None\<close> for a thrown \<^verbatim>\<open>SyntaxError\<close>) and \<open>stringify\<close> of the
  functions below.

  The prototype of an object comes in twice. An assignment to the key \<^verbatim>\<open>__proto__\<close> creates
  no property: it sets the prototype of the object, which is then an object \<open>JProto\<close>,
  given by the properties of its prototype and its own. And a member read \<^verbatim>\<open>v[k]\<close> looks
  past the own enumerable properties of \<open>v\<close>; what it finds there on a value with a built-in
  prototype belongs to the runtime and is the parameter \<open>hidden\<close> below.
\<close>

datatype json =
    JNull
  | JBool bool
  | JNum real
  | JStr string
  | JArr "json list"
  | JObj "(string \<times> json) list"
  | JProto "(string \<times> json) list" "(string \<times> json) list"

datatype error = TypeError

text \<open>Truthiness, as \<^verbatim>\<open>if (x)\<close>, \<^verbatim>\<open>!x\<close> and \<^verbatim>\<open>x || y\<close> read it; \<open>None\<close> is \<^verbatim>\<open>undefined\<close>.\<close>

fun truthy :: "json \<Rightarrow> bool" where
  "truthy JNull = False"
| "truthy (JBool b) = b"
| "truthy (JNum x) = (x \<noteq> 0)"
| "truthy (JStr s) = (s \<noteq> [])"
| "truthy (JArr xs) = True"
| "truthy (JObj ps) = True"
| "truthy (JProto pps ps) = True"

fun truthy_opt :: "json option \<Rightarrow> bool" where
  "truthy_opt None = False"
| "truthy_opt (Some v) = truthy v"

text \<open>Decimal index keys \<^verbatim>\<open>"0"\<close>, \<^verbatim>\<open>"1"\<close>, ... of arrays and strings.\<close>

fun show_nat :: "nat \<Rightarrow> string" where
  "show_nat n =
     (if n < 10 then [char_of (48 + n)]
      else show_nat (n div 10) @ [char_of (48 + n mod 10)])"

declare show_nat.simps [simp del]

definition index_props :: "json list \<Rightarrow> (string \<times> json) list" where
  "index_props xs = zip (map show_nat [0..<length xs]) xs"

text \<open>
  The own enumerable properties of a value: what \<^verbatim>\<open>Object.keys(v)\<close> lists and what the
  spread \<^verbatim>\<open>{ ...v }\<close> copies. A number, a boolean and \<^verbatim>\<open>null\<close> have none; those of a
  prototype are not among them.
\<close>

fun own_props :: "json \<Rightarrow> (string \<times> json) list" where
  "own_props (JObj ps) = ps"
| "own_props (JProto pps ps) = ps"
| "own_props (JArr xs) = index_props xs"
| "own_props (JStr s) = index_props (map (\<lambda>c. JStr [c]) s)"
| "own_props JNull = []"
| "own_props (JBool b) = []"
| "own_props (JNum x) = []"

text \<open>
  The enumerable properties a member read goes through before it reaches a built-in
  prototype: the own ones, then those of a prototype that was set.
\<close>

fun chain_props :: "json \<Rightarrow> (string \<times> json) list" where
  "chain_props (JProto pps ps) = ps @ pps"
| "chain_props v = own_props v"

text \<open>
  \<^verbatim>\<open>obj.user_annotations\<close>: reading a property of \<^verbatim>\<open>null\<close> throws. The loaders read this
  one name, which no built-in prototype and no non-enumerable property has, so that the
  read ends with \<^verbatim>\<open>undefined\<close> where the enumerable properties end.
\<close>

definition get_prop :: "json \<Rightarrow> string \<Rightarrow> error + json option" where
  "get_prop v k = (case v of JNull \<Rightarrow> Inl TypeError | _ \<Rightarrow> Inr (map_of (chain_props v) k))"

text \<open>
  \<^verbatim>\<open>v[k]\<close> for any key, on a value that is not \<^verbatim>\<open>null\<close>. Past the enumerable properties
  a value has members the program did not make: non-enumerable ones (the \<^verbatim>\<open>length\<close> of an
  array or a string) and those of its built-in prototype (for an object \<^verbatim>\<open>constructor\<close>,
  \<^verbatim>\<open>toString\<close>, \<^verbatim>\<open>valueOf\<close>, ... and the accessor \<^verbatim>\<open>__proto__\<close>). They are functions,
  numbers and built-in prototype objects, none of which has an own enumerable property.
  The parameter \<open>hidden\<close> says, of a value with a built-in prototype and a key that is
  none of its enumerable properties, whether the value has such a member and it is
  truthy. On an object whose prototype was set, \<^verbatim>\<open>__proto__\<close> reads that prototype.
\<close>

datatype member = Value json | BuiltIn | Undefined

fun member_truthy :: "member \<Rightarrow> bool" where
  "member_truthy (Value v) = truthy v"
| "member_truthy BuiltIn = True"
| "member_truthy Undefined = False"

fun member_props :: "member \<Rightarrow> (string \<times> json) list" where
  "member_props (Value v) = own_props v"
| "member_props BuiltIn = []"
| "member_props Undefined = []"

definition read_member :: "(json \<Rightarrow> string \<Rightarrow> bool) \<Rightarrow> json \<Rightarrow> string \<Rightarrow> member" where
  "read_member hidden v k =
     (case map_of (chain_props v) k of
        Some x \<Rightarrow> Value x
      | None \<Rightarrow>
          (case v of
             JProto pps ps \<Rightarrow>
               if k = ''__proto__'' then Value (JObj pps)
               else if hidden (JObj pps) k then BuiltIn else Undefined
           | _ \<Rightarrow> if hidden v k then BuiltIn else Undefined))"

text \<open>
  \<^verbatim>\<open>obj.user_annotations = x\<close> in module (strict) code, the one assignment to a property of
  a loaded value: it throws on \<^verbatim>\<open>null\<close> and on a primitive. An array
  that receives a named property is carried on as the object of its own enumerable
  properties: the viewer reads an entry only through \<^verbatim>\<open>Object.keys\<close>, member access and
  spread, which agree on the two.
\<close>

fun set_prop :: "json \<Rightarrow> string \<Rightarrow> json \<Rightarrow> error + json" where
  "set_prop (JObj ps) k x = Inr (JObj (AList.update k x ps))"
| "set_prop (JArr xs) k x = Inr (JObj (AList.update k x (index_props xs)))"
| "set_prop (JProto pps ps) k x = Inr (JProto pps (AList.update k x ps))"
| "set_prop JNull k x = Inl TypeError"
| "set_prop (JBool b) k x = Inl TypeError"
| "set_prop (JNum n) k x = Inl TypeError"
| "set_prop (JStr s) k x = Inl TypeError"

subsection \<open>Lines of text\<close>

text \<open>\<^verbatim>\<open>text.split('\n')\<close> and \<^verbatim>\<open>lines.join('\n')\<close>.\<close>

fun split_nl :: "string \<Rightarrow> string list" where
  "split_nl [] = [[]]"
| "split_nl (c # cs) =
     (if c = CHR 0x0A then [] # split_nl cs
      else (case split_nl cs of [] \<Rightarrow> [[c]] | l # ls \<Rightarrow> (c # l) # ls))"

fun join_nl :: "string list \<Rightarrow> string" where
  "join_nl [] = []"
| "join_nl [l] = l"
| "join_nl (l # m # ls) = l @ CHR 0x0A # join_nl (m # ls)"

text \<open>
  \<^verbatim>\<open>line.trim()\<close> strips white space and line terminators at both ends; of those code
  points the ones a \<^typ>\<open>char\<close> can hold are listed.
\<close>

definition js_space :: "char \<Rightarrow> bool" where
  "js_space c \<longleftrightarrow> c \<in> set [CHR 0x09, CHR 0x0A, CHR 0x0B, CHR 0x0C, CHR 0x0D, CHR 0x20, CHR 0xA0]"

definition trim :: "string \<Rightarrow> string" where
  "trim s = rev (dropWhile js_space (rev (dropWhile js_space s)))"

section \<open>The JSONL viewer: loading and saving\<close>

definition TELEMETRY_KEYS :: "string list" where
  "TELEMETRY_KEYS =
     [''input_mutation_id'', ''timestamp'', ''model'', ''response_id'',
      ''input_tokens'', ''output_tokens'', ''cached_tokens'',
      ''web_search_calls'', ''total_cost'', ''duration_seconds'', ''status'',
      ''user_annotations'']"

definition default_annot :: "(string \<times> json) list" where
  "default_annot = [(''correctness'', JStr ''unchecked''), (''comment'', JStr '''')]"

text \<open>
  \<^verbatim>\<open>newAnnot[key] = { correctness: 'unchecked', comment: '' }\<close> on the object under
  construction, held as the properties of the prototype it was given, if any, and its own
  properties: the key \<^verbatim>\<open>__proto__\<close> sets the prototype, any other key a property.
\<close>

definition init_key ::
  "string \<Rightarrow> (string \<times> json) list option \<times> (string \<times> json) list \<Rightarrow>
     (string \<times> json) list option \<times> (string \<times> json) list" where
  "init_key key newAnnot =
     (case newAnnot of (proto, own) \<Rightarrow>
        if key = ''__proto__'' then (Some default_annot, own)
        else (proto, AList.update key (JObj default_annot) own))"

text \<open>
  \<^verbatim>\<open>initializeAnnotations\<close>: starting from \<^verbatim>\<open>{}\<close>, the assignment above for every key of the
  record that is not a telemetry key.
\<close>

definition initializeAnnotations :: "json \<Rightarrow> json" where
  "initializeAnnotations originalObj =
     (case fold (\<lambda>key newAnnot.
                   if key \<notin> set TELEMETRY_KEYS then init_key key newAnnot else newAnnot)
             (map fst (own_props originalObj)) (None, []) of
        (None, own) \<Rightarrow> JObj own
      | (Some proto, own) \<Rightarrow> JProto proto own)"

text \<open>
  The accumulators of the parse loop of \<^verbatim>\<open>handleSelectFile\<close>: \<^verbatim>\<open>parsedEntries\<close> and
  \<^verbatim>\<open>loadedAnnotations\<close>, the latter an object keyed by entry index.
\<close>

type_synonym load_acc = "json list \<times> (nat \<rightharpoonup> json)"

text \<open>
  The body of the \<^verbatim>\<open>try\<close> after \<^verbatim>\<open>JSON.parse\<close>. For a new output file a record without a
  truthy \<^verbatim>\<open>user_annotations\<close> gets initialised ones; then a truthy \<^verbatim>\<open>user_annotations\<close> is
  stored under \<^verbatim>\<open>parsedEntries.length\<close> and the record is pushed. Whatever throws leaves
  both accumulators as they were.
\<close>

definition init_if_new :: "bool \<Rightarrow> json \<Rightarrow> error + json" where
  "init_if_new isNew obj =
     (if isNew then
        (case get_prop obj ''user_annotations'' of
           Inl e \<Rightarrow> Inl e
         | Inr u \<Rightarrow>
             if \<not> truthy_opt u
             then set_prop obj ''user_annotations'' (initializeAnnotations obj)
             else Inr obj)
      else Inr obj)"

definition store_entry :: "json \<Rightarrow> load_acc \<Rightarrow> error + load_acc" where
  "store_entry obj acc =
     (case get_prop obj ''user_annotations'' of
        Inl e \<Rightarrow> Inl e
      | Inr u \<Rightarrow>
          (case acc of (parsedEntries, loadedAnnotations) \<Rightarrow>
             Inr (parsedEntries @ [obj],
                  (case u of
                     Some a \<Rightarrow>
                       if truthy a then loadedAnnotations(length parsedEntries \<mapsto> a)
                       else loadedAnnotations
                   | None \<Rightarrow> loadedAnnotations))))"

definition load_obj :: "bool \<Rightarrow> json \<Rightarrow> load_acc \<Rightarrow> error + load_acc" where
  "load_obj isNew obj acc =
     (case init_if_new isNew obj of
        Inl e \<Rightarrow> Inl e
      | Inr obj' \<Rightarrow> store_entry obj' acc)"

text \<open>One round of \<^verbatim>\<open>lines.forEach\<close>: a blank line is skipped, an exception is logged.\<close>

definition load_line :: "(string \<Rightarrow> json option) \<Rightarrow> bool \<Rightarrow> load_acc \<Rightarrow> string \<Rightarrow> load_acc" where
  "load_line parse isNew acc line =
     (if trim line \<noteq> [] then
        (case parse line of
           None \<Rightarrow> acc
         | Some obj \<Rightarrow> (case load_obj isNew obj acc of Inl e \<Rightarrow> acc | Inr acc' \<Rightarrow> acc'))
      else acc)"

definition load_lines :: "(string \<Rightarrow> json option) \<Rightarrow> bool \<Rightarrow> string list \<Rightarrow> load_acc" where
  "load_lines parse isNew lines = foldl (load_line parse isNew) ([], Map.empty) lines"

definition load :: "(string \<Rightarrow> json option) \<Rightarrow> bool \<Rightarrow> string \<Rightarrow> load_acc" where
  "load parse isNew fileContent = load_lines parse isNew (split_nl fileContent)"

text \<open>
  The loop of \<^verbatim>\<open>handleFileUpload\<close> in the upload/download version of the viewer: the same
  loop without the initialisation for a new file.
\<close>

definition upload_line :: "(string \<Rightarrow> json option) \<Rightarrow> load_acc \<Rightarrow> string \<Rightarrow> load_acc" where
  "upload_line parse acc line =
     (if trim line \<noteq> [] then
        (case parse line of
           None \<Rightarrow> acc
         | Some obj \<Rightarrow> (case store_entry obj acc of Inl e \<Rightarrow> acc | Inr acc' \<Rightarrow> acc'))
      else acc)"

definition handleFileUpload :: "(string \<Rightarrow> json option) \<Rightarrow> string \<Rightarrow> load_acc" where
  "handleFileUpload parse text = foldl (upload_line parse) ([], Map.empty) (split_nl text)"

text \<open>
  The text \<^verbatim>\<open>saveToDisk\<close> writes (and \<^verbatim>\<open>handleDownload\<close> offers): each entry spread into a
  fresh object, its \<^verbatim>\<open>user_annotations\<close> set to the overlay's value for its index when that
  is truthy, stringified, the lines joined by newlines.
\<close>

definition save_entry :: "json \<Rightarrow> json option \<Rightarrow> json" where
  "save_entry entry entryAnnot =
     (let newEntry = own_props entry
      in JObj (case entryAnnot of
                 Some a \<Rightarrow> if truthy a then AList.update ''user_annotations'' a newEntry else newEntry
               | None \<Rightarrow> newEntry))"

definition outputLines :: "(json \<Rightarrow> string) \<Rightarrow> json list \<Rightarrow> (nat \<rightharpoonup> json) \<Rightarrow> string" where
  "outputLines stringify currentEntries currentAnnotations =
     join_nl (map (\<lambda>(idx, entry). stringify (save_entry entry (currentAnnotations idx)))
                  (enumerate 0 currentEntries))"

text \<open>The objects \<^verbatim>\<open>saveToDisk\<close> hands to \<^verbatim>\<open>JSON.stringify\<close>, in order.\<close>

definition newEntries :: "json list \<Rightarrow> (nat \<rightharpoonup> json) \<Rightarrow> json list" where
  "newEntries currentEntries currentAnnotations =
     map (\<lambda>(idx, entry). save_entry entry (currentAnnotations idx)) (enumerate 0 currentEntries)"

text \<open>
  The parsed value of a line that ends up in the document: the line is not blank,
  \<^verbatim>\<open>JSON.parse\<close> returns and the rest of the \<^verbatim>\<open>try\<close> body does not throw.
\<close>

definition loaded_value :: "(string \<Rightarrow> json option) \<Rightarrow> bool \<Rightarrow> string \<Rightarrow> json option" where
  "loaded_value parse isNew line =
     (if trim line \<noteq> [] then
        (case parse line of
           None \<Rightarrow> None
         | Some obj \<Rightarrow> (case load_obj isNew obj ([], Map.empty) of Inl e \<Rightarrow> None | Inr acc \<Rightarrow> Some obj))
      else None)"

text \<open>Two values with the same own properties apart from \<^verbatim>\<open>user_annotations\<close>.\<close>

definition same_fields :: "json \<Rightarrow> json \<Rightarrow> bool" where
  "same_fields v e \<longleftrightarrow>
     (\<forall>k. k \<noteq> ''user_annotations'' \<longrightarrow> map_of (own_props e) k = map_of (own_props v) k)"

text \<open>The truthy \<^verbatim>\<open>user_annotations\<close> a value carries, if any: what \<^verbatim>\<open>v.user_annotations\<close> reads.\<close>

definition carried_annotations :: "json \<Rightarrow> json option" where
  "carried_annotations v =
     (case map_of (chain_props v) ''user_annotations'' of
        Some a \<Rightarrow> if truthy a then Some a else None
      | None \<Rightarrow> None)"

text \<open>
  The annotations a record has after the load for a new output file: the truthy ones it
  carried, or else initialised ones.
\<close>

definition bootstrap_annotations :: "json \<Rightarrow> json" where
  "bootstrap_annotations v =
     (case carried_annotations v of Some a \<Rightarrow> a | None \<Rightarrow> initializeAnnotations v)"

text \<open>
  The overlay is keyed by document index: an index holds exactly the truthy
  \<^verbatim>\<open>user_annotations\<close> of the entry at that index.
\<close>

definition overlay_indexed :: "load_acc \<Rightarrow> bool" where
  "overlay_indexed acc \<longleftrightarrow>
     (\<forall>i. snd acc i = (if i < length (fst acc) then carried_annotations (fst acc ! i) else None))"

text \<open>
  The parsed values of the lines of a text that end up in the document, in the order of
  the lines.
\<close>

definition loaded_values :: "(string \<Rightarrow> json option) \<Rightarrow> bool \<Rightarrow> string \<Rightarrow> json list" where
  "loaded_values parse isNew text = List.map_filter (loaded_value parse isNew) (split_nl text)"

text \<open>
  The annotation of a field of an entry that an overlay holds as an own property,
  \<^verbatim>\<open>annotations[i]?.[k]\<close>.
\<close>

definition field_annot :: "(nat \<rightharpoonup> json) \<Rightarrow> nat \<Rightarrow> string \<Rightarrow> json option" where
  "field_annot an i k = (case an i of None \<Rightarrow> None | Some e \<Rightarrow> map_of (own_props e) k)"

section \<open>The JSONL viewer: annotations and autosave\<close>

text \<open>
  The state of the component. A file handle is the name of its file. The pending timeout
  of \<^verbatim>\<open>useDebounce\<close> is the time left on it and the arguments its callback captured;
  \<open>inflight\<close> are the \<^verbatim>\<open>writeFileText\<close> calls that have not settled yet, \<open>writes\<close> all
  of them, oldest first. The display-only \<^verbatim>\<open>loading\<close> and \<^verbatim>\<open>saveStatus\<close> are left out.
\<close>

type_synonym save_args = "string \<times> json list \<times> (nat \<rightharpoonup> json)"

record viewer =
  entries :: "json list"
  currentFileHandle :: "string option"
  outputFileHandle :: "string option"
  currentIndex :: nat
  annotations :: "nat \<rightharpoonup> json"
  timeoutRef :: "(nat \<times> save_args) option"
  inflight :: "(string \<times> string) list"
  writes :: "(string \<times> string) list"

definition saveToDisk ::
  "(json \<Rightarrow> string) \<Rightarrow> string option \<Rightarrow> json list \<Rightarrow> (nat \<rightharpoonup> json) \<Rightarrow> viewer \<Rightarrow> viewer" where
  "saveToDisk stringify handle currentEntries currentAnnotations w =
     (case handle of
        None \<Rightarrow> w
      | Some h \<Rightarrow>
          (let text = outputLines stringify currentEntries currentAnnotations
           in w\<lparr>inflight := inflight w @ [(h, text)], writes := writes w @ [(h, text)]\<rparr>))"

text \<open>
  \<^verbatim>\<open>useDebounce(callback, 500)\<close>: a call clears the pending timeout, if any, and sets a new
  one of 500 time units with the arguments of this call.
\<close>

definition debouncedSave :: "save_args \<Rightarrow> viewer \<Rightarrow> viewer" where
  "debouncedSave args w = w\<lparr>timeoutRef := Some (500, args)\<rparr>"

text \<open>
  The updater both versions of the viewer pass to \<^verbatim>\<open>setAnnotations\<close> in
  \<^verbatim>\<open>handleAnnotationChange\<close>. \<^verbatim>\<open>currentEntryAnnots[key]\<close> is a member read; the two spreads
  copy own enumerable properties, and the computed keys of the object literals define
  own properties, \<^verbatim>\<open>__proto__\<close> too.
\<close>

definition updateAnnotation ::
  "(json \<Rightarrow> string \<Rightarrow> bool) \<Rightarrow> nat \<Rightarrow> string \<Rightarrow> string \<Rightarrow> string \<Rightarrow>
     (nat \<rightharpoonup> json) \<Rightarrow> (nat \<rightharpoonup> json)" where
  "updateAnnotation hidden idx key field val prev =
     (let currentEntryAnnots =
            (case prev idx of Some a \<Rightarrow> if truthy a then a else JObj [] | None \<Rightarrow> JObj []);
          m = read_member hidden currentEntryAnnots key;
          fieldAnnot = (if member_truthy m then m else Value (JObj default_annot))
      in prev(idx \<mapsto>
           JObj (AList.update key
                   (JObj (AList.update field (JStr val) (member_props fieldAnnot)))
                   (own_props currentEntryAnnots))))"

definition handleAnnotationChange ::
  "(json \<Rightarrow> string \<Rightarrow> bool) \<Rightarrow> string \<Rightarrow> string \<Rightarrow> string \<Rightarrow> viewer \<Rightarrow> viewer" where
  "handleAnnotationChange hidden key field val w =
     (let newAnnotations =
            updateAnnotation hidden (currentIndex w) key field val (annotations w);
          w' = w\<lparr>annotations := newAnnotations\<rparr>
      in case outputFileHandle w of
           Some h \<Rightarrow> debouncedSave (h, entries w, newAnnotations) w'
         | None \<Rightarrow> w')"

text \<open>
  Time passing: a pending timeout whose time is up runs its callback, \<^verbatim>\<open>saveToDisk\<close> on
  the captured arguments.
\<close>

definition elapse :: "(json \<Rightarrow> string) \<Rightarrow> nat \<Rightarrow> viewer \<Rightarrow> viewer" where
  "elapse stringify d w =
     (case timeoutRef w of
        None \<Rightarrow> w
      | Some (r, h, ents, annots) \<Rightarrow>
          if d < r then w\<lparr>timeoutRef := Some (r - d, h, ents, annots)\<rparr>
          else saveToDisk stringify (Some h) ents annots (w\<lparr>timeoutRef := None\<rparr>))"

text \<open>
  What happens to the component: an annotation is edited, time passes, a write settles
  (which of several settles first is not the program's choice; the oldest does).
\<close>

datatype event =
    AnnotationChange string string string
  | Elapse nat
  | WriteSettled

fun step ::
  "(json \<Rightarrow> string \<Rightarrow> bool) \<Rightarrow> (json \<Rightarrow> string) \<Rightarrow> viewer \<Rightarrow> event \<Rightarrow> viewer" where
  "step hidden stringify w (AnnotationChange key field val) =
     handleAnnotationChange hidden key field val w"
| "step hidden stringify w (Elapse d) = elapse stringify d w"
| "step hidden stringify w WriteSettled = w\<lparr>inflight := tl (inflight w)\<rparr>"

definition run ::
  "(json \<Rightarrow> string \<Rightarrow> bool) \<Rightarrow> (json \<Rightarrow> string) \<Rightarrow> viewer \<Rightarrow> event list \<Rightarrow> viewer" where
  "run hidden stringify w evs = foldl (step hidden stringify) w evs"

text \<open>Edits, each followed by a stretch of time.\<close>

fun schedule :: "(string \<times> string \<times> string) list \<Rightarrow> nat list \<Rightarrow> event list" where
  "schedule ((key, field, val) # ms) (d # ds) =
     AnnotationChange key field val # Elapse d # schedule ms ds"
| "schedule ms ds = []"

subsection \<open>Opening a file\<close>

text \<open>\<^verbatim>\<open>name.replace(pat, rep)\<close> with a string pattern: the first occurrence only.\<close>

fun replace_first :: "string \<Rightarrow> string \<Rightarrow> string \<Rightarrow> string" where
  "replace_first pat rep [] = (if pat = [] then rep else [])"
| "replace_first pat rep (c # cs) =
     (if take (length pat) (c # cs) = pat then rep @ drop (length pat) (c # cs)
      else c # replace_first pat rep cs)"

text \<open>
  \<^verbatim>\<open>handleSelectFile\<close> on a folder \<open>dir\<close> (the text of each file by name). The annotated
  file is read when it is there; when \<^verbatim>\<open>getFileHandle\<close> fails with \<^verbatim>\<open>NotFoundError\<close> the
  file is created, the source is read, and the loaded content is written at once. A read
  that fails ends in the outer \<^verbatim>\<open>catch\<close>, after the reset at the top of the function.
\<close>

definition handleSelectFile ::
  "(string \<Rightarrow> json option) \<Rightarrow> (json \<Rightarrow> string) \<Rightarrow> (string \<rightharpoonup> string) \<Rightarrow> string \<Rightarrow> viewer \<Rightarrow> viewer" where
  "handleSelectFile parse stringify dir fileHandle w =
     (let w0 = w\<lparr>entries := [], annotations := Map.empty, currentIndex := 0,
                 currentFileHandle := Some fileHandle\<rparr>;
          outputFilename = replace_first ''.jsonl'' ''_annotated.jsonl'' fileHandle
      in case (case dir outputFilename of
                 Some content \<Rightarrow> Some (False, content)
               | None \<Rightarrow> (case dir fileHandle of
                            Some content \<Rightarrow> Some (True, content)
                          | None \<Rightarrow> None)) of
           None \<Rightarrow> w0
         | Some (isNew, fileContent) \<Rightarrow>
             (case load parse isNew fileContent of
                (parsedEntries, loadedAnnotations) \<Rightarrow>
                  (let w1 = w0\<lparr>outputFileHandle := Some outputFilename,
                               entries := parsedEntries,
                               annotations := loadedAnnotations\<rparr>
                   in if isNew
                      then saveToDisk stringify (Some outputFilename) parsedEntries loadedAnnotations w1
                      else w1)))"

subsection \<open>Example values\<close>

text \<open>
  A serialiser for the examples below, in the place of \<^verbatim>\<open>JSON.stringify\<close>: compact JSON
  text, exact for strings that need no escape and for numbers that are integers.
\<close>

definition show_int :: "int \<Rightarrow> string" where
  "show_int i = (if i < 0 then CHR ''-'' # show_nat (nat (- i)) else show_nat (nat i))"

fun commas :: "string list \<Rightarrow> string" where
  "commas [] = []"
| "commas [s] = s"
| "commas (s # t # ss) = s @ CHR '','' # commas (t # ss)"

definition quoted :: "string \<Rightarrow> string" where
  "quoted s = CHR 0x22 # s @ [CHR 0x22]"

fun show_json :: "json \<Rightarrow> string" where
  "show_json JNull = ''null''"
| "show_json (JBool b) = (if b then ''true'' else ''false'')"
| "show_json (JNum x) = show_int \<lfloor>x\<rfloor>"
| "show_json (JStr s) = quoted s"
| "show_json (JArr xs) = CHR ''['' # commas (map show_json xs) @ '']''"
| "show_json (JObj ps) =
     CHR ''{'' # commas (map (\<lambda>p. quoted (fst p) @ CHR '':'' # show_json (snd p)) ps) @ ''}''"
| "show_json (JProto pps ps) =
     CHR ''{'' # commas (map (\<lambda>p. quoted (fst p) @ CHR '':'' # show_json (snd p)) ps) @ ''}''"

text \<open>
  The members of \<^verbatim>\<open>Object.prototype\<close>, and with them the hidden members of an object in
  the examples, which read members of objects only.
\<close>

definition object_prototype_members :: "string list" where
  "object_prototype_members =
     [''constructor'', ''hasOwnProperty'', ''isPrototypeOf'', ''propertyIsEnumerable'',
      ''toLocaleString'', ''toString'', ''valueOf'', ''__defineGetter__'',
      ''__defineSetter__'', ''__lookupGetter__'', ''__lookupSetter__'', ''__proto__'']"

definition example_hidden :: "json \<Rightarrow> string \<Rightarrow> bool" where
  "example_hidden v k = (case v of JObj ps \<Rightarrow> k \<in> set object_prototype_members | _ \<Rightarrow> False)"

text \<open>
  A source file of four lines: a record without annotations, a malformed line, a blank
  line and a record that carries annotations. The parser knows these lines and \<^verbatim>\<open>null\<close>.
\<close>

definition example_line1 :: string where
  \<open>example_line1 = ''{"a":"x","status":"ok"}''\<close>

definition example_line2 :: string where
  \<open>example_line2 =
     ''{"a":"y","b":"z","user_annotations":{"a":{"correctness":"yes","comment":"fine"}}}''\<close>

definition example_rec1 :: json where
  "example_rec1 = JObj [(''a'', JStr ''x''), (''status'', JStr ''ok'')]"

definition example_init1 :: json where
  "example_init1 =
     JObj [(''a'', JObj [(''correctness'', JStr ''unchecked''), (''comment'', JStr '''')])]"

definition example_annot2 :: json where
  "example_annot2 =
     JObj [(''a'', JObj [(''correctness'', JStr ''yes''), (''comment'', JStr ''fine'')])]"

definition example_rec2 :: json where
  "example_rec2 =
     JObj [(''a'', JStr ''y''), (''b'', JStr ''z''), (''user_annotations'', example_annot2)]"

definition example_parse :: "string \<Rightarrow> json option" where
  "example_parse =
     map_of [(example_line1, example_rec1), (example_line2, example_rec2), (''null'', JNull)]"

definition example_text :: string where
  "example_text =
     example_line1 @ [CHR 0x0A] @ ''{bad'' @ [CHR 0x0A] @ [CHR 0x0A] @ example_line2"

text \<open>The component before a file is opened, and a folder with one annotated source.\<close>

definition initial_viewer :: viewer where
  "initial_viewer =
     \<lparr>entries = [], currentFileHandle = None, outputFileHandle = None, currentIndex = 0,
      annotations = Map.empty, timeoutRef = None, inflight = [], writes = []\<rparr>"

definition example_dir :: "string \<rightharpoonup> string" where
  "example_dir = [''f.jsonl'' \<mapsto> example_line2]"

text \<open>The session on the second example record once its annotated file exists.\<close>

definition example_session :: viewer where
  "example_session =
     \<lparr>entries = [example_rec2], currentFileHandle = Some ''f.jsonl'',
      outputFileHandle = Some ''f_annotated.jsonl'', currentIndex = 0,
      annotations = [0 \<mapsto> example_annot2], timeoutRef = None, inflight = [], writes = []\<rparr>"

section \<open>The CSV viewer: grid editing\<close>

text \<open>
  The state of \<^verbatim>\<open>CsvViewer\<close> the handlers below read and write. A row is an object from
  column name to cell text; a missing key is \<^verbatim>\<open>undefined\<close>, as is the column of a selection
  read past the end of \<^verbatim>\<open>headers\<close>.
\<close>

record cell =
  row :: int
  col :: "string option"

record context_menu =
  mouseX :: int
  mouseY :: int
  menu_header :: string
  menu_index :: nat

record grid =
  data :: "(string \<rightharpoonup> string) list"
  headers :: "string list"
  selectedCell :: "cell option"
  isEditing :: bool
  contextMenu :: "context_menu option"

datatype key = Enter | Escape | ArrowUp | ArrowDown | ArrowLeft | ArrowRight | OtherKey

text \<open>\<^verbatim>\<open>headers.indexOf(header)\<close> and \<^verbatim>\<open>headers[i]\<close>.\<close>

fun indexOf :: "'a list \<Rightarrow> 'a \<Rightarrow> int" where
  "indexOf [] x = - 1"
| "indexOf (y # ys) x =
     (if y = x then 0 else (let i = indexOf ys x in if i < 0 then - 1 else i + 1))"

definition at_index :: "'a list \<Rightarrow> int \<Rightarrow> 'a option" where
  "at_index xs i = (if 0 \<le> i \<and> i < int (length xs) then Some (xs ! nat i) else None)"

text \<open>
  \<^verbatim>\<open>handleCellChange\<close>: the row object at \<^verbatim>\<open>rowIndex\<close> gets the value under \<^verbatim>\<open>header\<close>, in a
  copied array; with no row there the assignment throws.
\<close>

definition handleCellChange :: "nat \<Rightarrow> string \<Rightarrow> string \<Rightarrow> grid \<Rightarrow> error + grid" where
  "handleCellChange rowIndex header val g =
     (if rowIndex < length (data g)
      then Inr (g\<lparr>data := (data g)[rowIndex := ((data g) ! rowIndex)(header \<mapsto> val)]\<rparr>)
      else Inl TypeError)"

text \<open>
  The end of the navigation branch of \<^verbatim>\<open>handleKeyDown\<close>:
  \<^verbatim>\<open>setSelectedCell({ row: nextRow, col: headers[nextColIdx] })\<close>.
\<close>

definition select_cell :: "int \<Rightarrow> int \<Rightarrow> grid \<Rightarrow> error + grid" where
  "select_cell nextRow nextColIdx g =
     Inr (g\<lparr>selectedCell := Some \<lparr>row = nextRow, col = at_index (headers g) nextColIdx\<rparr>\<rparr>)"

text \<open>
  \<^verbatim>\<open>handleKeyDown(e, rowIndex, header)\<close> on the cell at \<^verbatim>\<open>(rowIndex, header)\<close>, with the key
  \<^verbatim>\<open>e.key\<close> and the text \<^verbatim>\<open>e.target.innerText\<close> of the cell.
\<close>

definition handleKeyDown :: "key \<Rightarrow> string \<Rightarrow> nat \<Rightarrow> string \<Rightarrow> grid \<Rightarrow> error + grid" where
  "handleKeyDown k innerText rowIndex header g =
     (if isEditing g then
        (if k = Enter then
           (case handleCellChange rowIndex header innerText g of
              Inl e \<Rightarrow> Inl e
            | Inr g' \<Rightarrow>
                (let nextRow = min (int (length (data g)) - 1) (int rowIndex + 1)
                 in Inr (g'\<lparr>isEditing := False,
                            selectedCell := Some \<lparr>row = nextRow, col = Some header\<rparr>\<rparr>)))
         else if k = Escape then Inr (g\<lparr>isEditing := False\<rparr>)
         else if k = ArrowUp \<or> k = ArrowDown then
           (case handleCellChange rowIndex header innerText g of
              Inl e \<Rightarrow> Inl e
            | Inr g' \<Rightarrow>
                (let direction = (if k = ArrowUp then - 1 else 1);
                     nextRow = max 0 (min (int (length (data g)) - 1) (int rowIndex + direction))
                 in Inr (g'\<lparr>isEditing := False,
                            selectedCell := Some \<lparr>row = nextRow, col = Some header\<rparr>\<rparr>)))
         else Inr g)
      else
        (let nextRow = int rowIndex;
             nextColIdx = indexOf (headers g) header
         in if k = ArrowUp then select_cell (max 0 (int rowIndex - 1)) nextColIdx g
            else if k = ArrowDown
              then select_cell (min (int (length (data g)) - 1) (int rowIndex + 1)) nextColIdx g
            else if k = ArrowLeft then select_cell nextRow (max 0 (nextColIdx - 1)) g
            else if k = ArrowRight
              then select_cell nextRow (min (int (length (headers g)) - 1) (nextColIdx + 1)) g
            else if k = Enter then Inr (g\<lparr>isEditing := True\<rparr>)
            else select_cell nextRow nextColIdx g))"

text \<open>
  \<^verbatim>\<open>handleDeleteColumn\<close>, with the answer to the \<^verbatim>\<open>confirm\<close> dialog: the header is filtered
  out of \<^verbatim>\<open>headers\<close>; \<^verbatim>\<open>data\<close> is not written.
\<close>

definition handleDeleteColumn :: "bool \<Rightarrow> grid \<Rightarrow> grid" where
  "handleDeleteColumn confirmed g =
     (case contextMenu g of
        None \<Rightarrow> g
      | Some cm \<Rightarrow>
          (let g' = (if confirmed
                     then g\<lparr>headers := filter (\<lambda>h. h \<noteq> menu_header cm) (headers g)\<rparr>
                     else g)
           in g'\<lparr>contextMenu := None\<rparr>))"

text \<open>The invariant of a table: the keys of every row are among the headers.\<close>

definition row_invariant :: "grid \<Rightarrow> bool" where
  "row_invariant g \<longleftrightarrow> (\<forall>r \<in> set (data g). dom r \<subseteq> set (headers g))"

text \<open>A table of two columns and two rows, the second cell of the first row in edit.\<close>

definition example_grid :: grid where
  "example_grid =
     \<lparr>data = [[''name'' \<mapsto> ''ada'', ''city'' \<mapsto> ''london''],
              [''name'' \<mapsto> ''alan'', ''city'' \<mapsto> ''wilmslow'']],
      headers = [''name'', ''city''],
      selectedCell = Some \<lparr>row = 0, col = Some ''city''\<rparr>,
      isEditing = True,
      contextMenu = Some \<lparr>mouseX = 10, mouseY = 20, menu_header = ''city'', menu_index = 1\<rparr>\<rparr>"

section \<open>The parse loop, line by line\<close>

text \<open>What storing a record does; it throws on \<^verbatim>\<open>null\<close> only.\<close>

lemma store_entry_Inr:
  "obj \<noteq> JNull \<Longrightarrow> store_entry obj (es, an) =
     Inr (es @ [obj], (case carried_annotations obj of Some a \<Rightarrow> an(length es \<mapsto> a) | None \<Rightarrow> an))"
  by (cases obj) (auto simp: store_entry_def get_prop_def carried_annotations_def split: option.splits)

lemma store_entry_JNull: "store_entry JNull acc = Inl TypeError"
  by (simp add: store_entry_def get_prop_def)

lemma init_if_new_same_fields: "init_if_new n obj = Inr obj' \<Longrightarrow> same_fields obj obj'"
  by (cases obj) (auto simp: init_if_new_def get_prop_def same_fields_def update_conv' split: if_splits)

lemma init_if_new_obj: "\<exists>ps'. init_if_new n (JObj ps) = Inr (JObj ps')"
  by (auto simp: init_if_new_def get_prop_def)

text \<open>Whether the try body throws does not depend on the accumulators.\<close>

lemma load_obj_cases:
  "(load_obj n obj (es, an) = Inl TypeError \<and> load_obj n obj ([], Map.empty) = Inl TypeError) \<or>
   (\<exists>obj'. init_if_new n obj = Inr obj' \<and> obj' \<noteq> JNull \<and>
      load_obj n obj (es, an) =
        Inr (es @ [obj'], (case carried_annotations obj' of Some a \<Rightarrow> an(length es \<mapsto> a) | None \<Rightarrow> an)) \<and>
      load_obj n obj ([], Map.empty) =
        Inr ([obj'], (case carried_annotations obj' of Some a \<Rightarrow> [0 \<mapsto> a] | None \<Rightarrow> Map.empty)))"
proof (cases "init_if_new n obj")
  case (Inl e)
  then show ?thesis by (cases e) (simp add: load_obj_def)
next
  case (Inr obj')
  show ?thesis
  proof (cases "obj' = JNull")
    case True
    with Inr show ?thesis by (simp add: load_obj_def store_entry_JNull)
  next
    case False
    with Inr show ?thesis
      using store_entry_Inr [OF False, of es an] store_entry_Inr [OF False, of "[]" Map.empty]
      by (simp add: load_obj_def split: option.splits)
  qed
qed

lemma load_line_cases:
  "(load_line p n (es, an) l = (es, an) \<and> load_line p n ([], Map.empty) l = ([], Map.empty) \<and>
      loaded_value p n l = None) \<or>
   (\<exists>obj obj'. trim l \<noteq> [] \<and> p l = Some obj \<and> loaded_value p n l = Some obj \<and>
      init_if_new n obj = Inr obj' \<and> obj' \<noteq> JNull \<and>
      load_line p n (es, an) l =
        (es @ [obj'], (case carried_annotations obj' of Some a \<Rightarrow> an(length es \<mapsto> a) | None \<Rightarrow> an)) \<and>
      fst (load_line p n ([], Map.empty) l) = [obj'])"
proof (cases "trim l \<noteq> []")
  case False
  then show ?thesis by (simp add: load_line_def loaded_value_def)
next
  case nb: True
  show ?thesis
  proof (cases "p l")
    case None
    with nb show ?thesis by (simp add: load_line_def loaded_value_def)
  next
    case (Some obj)
    from load_obj_cases [of n obj es an] show ?thesis
    proof
      assume "load_obj n obj (es, an) = Inl TypeError \<and> load_obj n obj ([], Map.empty) = Inl TypeError"
      with nb Some show ?thesis by (simp add: load_line_def loaded_value_def)
    next
      assume "\<exists>obj'. init_if_new n obj = Inr obj' \<and> obj' \<noteq> JNull \<and>
        load_obj n obj (es, an) =
          Inr (es @ [obj'], (case carried_annotations obj' of Some a \<Rightarrow> an(length es \<mapsto> a) | None \<Rightarrow> an)) \<and>
        load_obj n obj ([], Map.empty) =
          Inr ([obj'], (case carried_annotations obj' of Some a \<Rightarrow> [0 \<mapsto> a] | None \<Rightarrow> Map.empty))"
      then obtain obj' where "init_if_new n obj = Inr obj'" "obj' \<noteq> JNull"
        "load_obj n obj (es, an) =
          Inr (es @ [obj'], (case carried_annotations obj' of Some a \<Rightarrow> an(length es \<mapsto> a) | None \<Rightarrow> an))"
        "load_obj n obj ([], Map.empty) =
          Inr ([obj'], (case carried_annotations obj' of Some a \<Rightarrow> [0 \<mapsto> a] | None \<Rightarrow> Map.empty))"
        by blast
      with nb Some show ?thesis by (simp add: load_line_def loaded_value_def)
    qed
  qed
qed

lemma load_line_fst:
  "fst (load_line p n acc l) = fst acc @ fst (load_line p n ([], Map.empty) l)"
  using load_line_cases [of p n "fst acc" "snd acc" l] by auto

lemma foldl_load_line_fst:
  "fst (foldl (load_line p n) acc ls) =
     fst acc @ concat (map (\<lambda>l. fst (load_line p n ([], Map.empty) l)) ls)"
proof (induction ls arbitrary: acc)
  case Nil
  show ?case by simp
next
  case (Cons l ls)
  show ?case by (simp add: Cons.IH [of "load_line p n acc l"] load_line_fst [of p n acc l])
qed

lemma load_lines_fst:
  "fst (load_lines p n ls) = concat (map (\<lambda>l. fst (load_line p n ([], Map.empty) l)) ls)"
  by (simp add: load_lines_def foldl_load_line_fst)

lemma load_lines_fst_append:
  "fst (load_lines p n (xs @ ys)) = fst (load_lines p n xs) @ fst (load_lines p n ys)"
  by (simp add: load_lines_fst)

lemma load_line_unparsable: "p l = None \<Longrightarrow> load_line p n acc l = acc"
  by (simp add: load_line_def)

lemma load_lines_drop:
  "p bad = None \<Longrightarrow> load_lines p n (pre @ bad # post) = load_lines p n (pre @ post)"
  by (simp add: load_lines_def load_line_unparsable)

lemma load_line_object:
  assumes "trim l \<noteq> []" "p l = Some (JObj ps)"
  shows "\<exists>ps'. fst (load_line p n ([], Map.empty) l) = [JObj ps'] \<and> same_fields (JObj ps) (JObj ps')"
    and "loaded_value p n l = Some (JObj ps)"
proof -
  obtain ps' where i: "init_if_new n (JObj ps) = Inr (JObj ps')"
    using init_if_new_obj by blast
  from load_line_cases [of p n "[]" Map.empty l] assms i
  show "\<exists>ps'. fst (load_line p n ([], Map.empty) l) = [JObj ps'] \<and> same_fields (JObj ps) (JObj ps')"
    using init_if_new_same_fields [OF i]
    by (auto simp: load_line_def load_obj_def store_entry_Inr)
  from assms i show "loaded_value p n l = Some (JObj ps)"
    by (simp add: loaded_value_def load_obj_def store_entry_Inr)
qed

lemma upload_line_eq: "upload_line p = load_line p False"
  by (intro ext) (simp add: upload_line_def load_line_def load_obj_def init_if_new_def split: option.splits)

lemma handleFileUpload_eq: "handleFileUpload p t = load p False t"
  by (simp add: handleFileUpload_def load_def load_lines_def upload_line_eq)

lemma overlay_indexed_step:
  assumes "overlay_indexed acc"
  shows "overlay_indexed (load_line p n acc l)"
proof -
  obtain es an where acc: "acc = (es, an)" by (cases acc)
  from assms acc have inv: "\<And>i. an i = (if i < length es then carried_annotations (es ! i) else None)"
    by (simp add: overlay_indexed_def)
  from load_line_cases [of p n es an l] show ?thesis
  proof
    assume "load_line p n (es, an) l = (es, an) \<and> load_line p n ([], Map.empty) l = ([], Map.empty) \<and>
      loaded_value p n l = None"
    with assms acc show ?thesis by simp
  next
    assume "\<exists>obj obj'. trim l \<noteq> [] \<and> p l = Some obj \<and> loaded_value p n l = Some obj \<and>
      init_if_new n obj = Inr obj' \<and> obj' \<noteq> JNull \<and>
      load_line p n (es, an) l =
        (es @ [obj'], (case carried_annotations obj' of Some a \<Rightarrow> an(length es \<mapsto> a) | None \<Rightarrow> an)) \<and>
      fst (load_line p n ([], Map.empty) l) = [obj']"
    then obtain obj' where
      ll: "load_line p n (es, an) l =
        (es @ [obj'], (case carried_annotations obj' of Some a \<Rightarrow> an(length es \<mapsto> a) | None \<Rightarrow> an))"
      by blast
    show ?thesis
      unfolding overlay_indexed_def acc ll
      by (auto simp: inv nth_append split: option.splits)
  qed
qed

lemma overlay_indexed_foldl:
  "overlay_indexed acc \<Longrightarrow> overlay_indexed (foldl (load_line p n) acc ls)"
  by (induction ls arbitrary: acc) (simp_all add: overlay_indexed_step)

lemma overlay_indexed_load_lines: "overlay_indexed (load_lines p n ls)"
  unfolding load_lines_def
  by (rule overlay_indexed_foldl) (simp add: overlay_indexed_def)

text \<open>Saving: an entry keeps its fields and gets the overlay's annotations.\<close>

lemma same_fields_save_entry: "same_fields v e \<Longrightarrow> same_fields v (save_entry e a)"
  by (auto simp: same_fields_def save_entry_def Let_def update_conv' split: option.splits)

lemma save_entry_annotations:
  "truthy a \<Longrightarrow> map_of (own_props (save_entry e (Some a))) ''user_annotations'' = Some a"
  by (simp add: save_entry_def Let_def update_conv')

lemma carried_truthy: "carried_annotations e = Some a \<Longrightarrow> truthy a"
  by (auto simp: carried_annotations_def split: option.splits if_splits)

lemma newEntries_nth:
  "i < length es \<Longrightarrow> newEntries es an ! i = save_entry (es ! i) (an i)"
  by (simp add: newEntries_def nth_enumerate_eq)

lemma length_newEntries: "length (newEntries es an) = length es"
  by (simp add: newEntries_def)

lemma newEntries_same_fields:
  assumes "list_all2 same_fields vs es"
  shows "list_all2 same_fields vs (newEntries es an)"
proof (rule list_all2_all_nthI)
  from assms show "length vs = length (newEntries es an)"
    by (simp add: length_newEntries list_all2_lengthD)
next
  fix i assume "i < length vs"
  with assms have i: "i < length es" and "same_fields (vs ! i) (es ! i)"
    by (auto simp: list_all2_conv_all_nth)
  then show "same_fields (vs ! i) (newEntries es an ! i)"
    by (simp add: newEntries_nth same_fields_save_entry)
qed

lemma outputLines_newEntries:
  "outputLines stringify es an = join_nl (map stringify (newEntries es an))"
  by (simp add: outputLines_def newEntries_def case_prod_unfold comp_def)

lemma loaded_values_foldl:
  assumes R: "\<And>v e. init_if_new n v = Inr e \<Longrightarrow> e \<noteq> JNull \<Longrightarrow> R v e"
  shows "list_all2 R xs (fst acc) \<Longrightarrow>
   list_all2 R (xs @ List.map_filter (loaded_value p n) ls) (fst (foldl (load_line p n) acc ls))"
proof (induction ls arbitrary: xs acc)
  case Nil
  then show ?case by (simp add: map_filter_simps)
next
  case (Cons l ls)
  obtain es an where acc: "acc = (es, an)" by (cases acc)
  from load_line_cases [of p n es an l] show ?case
  proof
    assume a: "load_line p n (es, an) l = (es, an) \<and> load_line p n ([], Map.empty) l = ([], Map.empty) \<and>
      loaded_value p n l = None"
    with Cons.IH [OF Cons.prems] acc show ?case by (simp add: map_filter_simps)
  next
    assume "\<exists>obj obj'. trim l \<noteq> [] \<and> p l = Some obj \<and> loaded_value p n l = Some obj \<and>
      init_if_new n obj = Inr obj' \<and> obj' \<noteq> JNull \<and>
      load_line p n (es, an) l =
        (es @ [obj'], (case carried_annotations obj' of Some a \<Rightarrow> an(length es \<mapsto> a) | None \<Rightarrow> an)) \<and>
      fst (load_line p n ([], Map.empty) l) = [obj']"
    then obtain obj obj' where lv: "loaded_value p n l = Some obj"
      and i: "init_if_new n obj = Inr obj'" and nn: "obj' \<noteq> JNull"
      and ll: "load_line p n (es, an) l =
        (es @ [obj'], (case carried_annotations obj' of Some a \<Rightarrow> an(length es \<mapsto> a) | None \<Rightarrow> an))"
      by blast
    have "list_all2 R (xs @ [obj]) (fst (load_line p n acc l))"
      using Cons.prems R [OF i nn]
      by (simp add: acc ll list_all2_appendI)
    from Cons.IH [OF this] lv show ?case by (simp add: map_filter_simps)
  qed
qed

lemma loaded_values_load_lines:
  assumes "\<And>v e. init_if_new n v = Inr e \<Longrightarrow> e \<noteq> JNull \<Longrightarrow> R v e"
  shows "list_all2 R (List.map_filter (loaded_value p n) ls) (fst (load_lines p n ls))"
  using loaded_values_foldl [of n R "[]" "([], Map.empty)" p ls] assms
  by (simp add: load_lines_def)

lemma split_nl_line: "CHR 0x0A \<notin> set l \<Longrightarrow> split_nl l = [l]"
  by (induction l) auto

lemma split_nl_append: "CHR 0x0A \<notin> set l \<Longrightarrow> split_nl (l @ CHR 0x0A # s) = l # split_nl s"
  by (induction l) auto

lemma split_join_nl:
  "ls \<noteq> [] \<Longrightarrow> \<forall>l \<in> set ls. CHR 0x0A \<notin> set l \<Longrightarrow> split_nl (join_nl ls) = ls"
  by (induction ls rule: join_nl.induct) (simp_all add: split_nl_line split_nl_append)

text \<open>What the initialisation for a new file leaves a record carrying.\<close>

lemma truthy_initializeAnnotations: "truthy (initializeAnnotations v)"
  by (simp add: initializeAnnotations_def split: prod.splits option.splits)

lemma init_if_new_carried:
  "init_if_new True v = Inr e \<Longrightarrow> carried_annotations e = Some (bootstrap_annotations v)"
  by (cases v)
    (auto simp: init_if_new_def get_prop_def carried_annotations_def bootstrap_annotations_def
      update_conv' map_add_def truthy_initializeAnnotations split: if_splits option.splits)

lemma init_if_new_False: "init_if_new False v = Inr e \<Longrightarrow> v = e"
  by (simp add: init_if_new_def)

lemma loaded_value_parse: "loaded_value p n l = Some v \<Longrightarrow> trim l \<noteq> [] \<and> p l = Some v"
  by (auto simp: loaded_value_def split: if_splits option.splits sum.splits)

subsection \<open>The example file, evaluated\<close>

lemma example_lines_nl:
  "CHR 0x0A \<notin> set example_line1" "CHR 0x0A \<notin> set example_line2"
  by (simp_all add: example_line1_def example_line2_def)

lemma example_split: "split_nl example_text = [example_line1, ''{bad'', [], example_line2]"
  by (simp add: example_text_def split_nl_append split_nl_line example_lines_nl)

lemma example_trim:
  "trim example_line1 \<noteq> []" "trim example_line2 \<noteq> []" "trim ''{bad'' \<noteq> []" "trim [] = []"
  by (simp_all add: trim_def js_space_def example_line1_def example_line2_def)

lemma example_parse_simps:
  "example_parse example_line1 = Some example_rec1"
  "example_parse example_line2 = Some example_rec2"
  "example_parse ''{bad'' = None"
  by (simp_all add: example_parse_def example_line1_def example_line2_def)

lemma example_init: "initializeAnnotations example_rec1 = example_init1"
  by (simp add: initializeAnnotations_def init_key_def example_rec1_def example_init1_def
      TELEMETRY_KEYS_def default_annot_def)

lemma example_load_obj:
  "load_obj True example_rec1 (es, an) =
     Inr (es @ [JObj [(''a'', JStr ''x''), (''status'', JStr ''ok''), (''user_annotations'', example_init1)]],
          an(length es \<mapsto> example_init1))"
  "load_obj False example_rec1 (es, an) = Inr (es @ [example_rec1], an)"
  "load_obj n example_rec2 (es, an) = Inr (es @ [example_rec2], an(length es \<mapsto> example_annot2))"
  by (simp_all add: load_obj_def init_if_new_def get_prop_def store_entry_def
      example_init [unfolded example_rec1_def] example_rec1_def example_rec2_def
      example_annot2_def example_init1_def)

lemma example_load_True:
  "load example_parse True example_text =
     ([JObj [(''a'', JStr ''x''), (''status'', JStr ''ok''), (''user_annotations'', example_init1)],
       example_rec2],
      [0 \<mapsto> example_init1, 1 \<mapsto> example_annot2])"
  by (simp add: load_def load_lines_def load_line_def example_split example_trim
      example_parse_simps example_load_obj)

lemma example_load_False:
  "load example_parse False example_text = ([example_rec1, example_rec2], [1 \<mapsto> example_annot2])"
  by (simp add: load_def load_lines_def load_line_def example_split example_trim
      example_parse_simps example_load_obj)

lemma example_loaded_False:
  "loaded_values example_parse False example_text = [example_rec1, example_rec2]"
  by (simp add: loaded_values_def example_split map_filter_simps loaded_value_def example_trim
      example_parse_simps example_load_obj)

section \<open>Loading and saving: the claims\<close>

text \<open>
  Claim C10. During load, the annotations a record carries are stored in the overlay under
  the record's position among the lines that were loaded, not under its line number. The
  lines that are loaded are the non-blank lines the parser accepts and the rest of the
  loop body does not throw on, every line that is a JSON object among them. For an
  existing annotated file, and in \<^verbatim>\<open>handleFileUpload\<close>, the document is the list of their
  parsed values, and the overlay holds at each index the (truthy) \<^verbatim>\<open>user_annotations\<close> of
  the value at that index in this list, and nothing past it. For a new file the document
  has one entry for each of these values and the overlay holds at each index the
  annotations the value carried or, without any, its initialised ones. In every case
  the overlay at an index is what the document entry at that index carries.
\<close>

theorem overlay_index_is_document_index:
  "fst (load parse False text) = loaded_values parse False text
   \<and> (\<forall>i. snd (load parse False text) i =
          (if i < length (loaded_values parse False text)
           then carried_annotations (loaded_values parse False text ! i) else None))
   \<and> handleFileUpload parse text = load parse False text
   \<and> length (fst (load parse True text)) = length (loaded_values parse True text)
   \<and> (\<forall>i. snd (load parse True text) i =
          (if i < length (loaded_values parse True text)
           then Some (bootstrap_annotations (loaded_values parse True text ! i)) else None))
   \<and> overlay_indexed (load parse isNew text)
   \<and> overlay_indexed (handleFileUpload parse text)
   \<and> (\<forall>l v. loaded_value parse isNew l = Some v \<longrightarrow> trim l \<noteq> [] \<and> parse l = Some v)
   \<and> (\<forall>l ps. trim l \<noteq> [] \<and> parse l = Some (JObj ps) \<longrightarrow>
          loaded_value parse isNew l = Some (JObj ps))"
proof -
  have ix: "overlay_indexed (load parse n text)" for n
    by (simp add: load_def overlay_indexed_load_lines)
  have "list_all2 (=) (loaded_values parse False text) (fst (load parse False text))"
    unfolding loaded_values_def load_def
    by (rule loaded_values_load_lines) (rule init_if_new_False)
  then have "loaded_values parse False text = fst (load parse False text)"
    unfolding list_all2_eq .
  then have f: "fst (load parse False text) = loaded_values parse False text"
    by (rule sym)
  have fo: "snd (load parse False text) i =
      (if i < length (loaded_values parse False text)
       then carried_annotations (loaded_values parse False text ! i) else None)" for i
    using ix [of False] unfolding overlay_indexed_def f by simp
  have t: "list_all2 (\<lambda>v e. carried_annotations e = Some (bootstrap_annotations v))
      (loaded_values parse True text) (fst (load parse True text))"
    unfolding loaded_values_def load_def
    by (rule loaded_values_load_lines) (rule init_if_new_carried)
  then have tl: "length (fst (load parse True text)) = length (loaded_values parse True text)"
    by (simp add: list_all2_lengthD)
  have to: "snd (load parse True text) i =
      (if i < length (loaded_values parse True text)
       then Some (bootstrap_annotations (loaded_values parse True text ! i)) else None)" for i
  proof (cases "i < length (loaded_values parse True text)")
    case True
    with t have "carried_annotations (fst (load parse True text) ! i) =
        Some (bootstrap_annotations (loaded_values parse True text ! i))"
      by (simp add: list_all2_conv_all_nth)
    with True ix [of True] show ?thesis
      by (simp add: overlay_indexed_def tl)
  next
    case False
    with ix [of True] show ?thesis
      by (simp add: overlay_indexed_def tl)
  qed
  have u: "handleFileUpload parse text = load parse False text"
    by (rule handleFileUpload_eq)
  have iu: "overlay_indexed (handleFileUpload parse text)"
    unfolding u by (rule ix)
  have lp: "\<forall>l v. loaded_value parse isNew l = Some v \<longrightarrow> trim l \<noteq> [] \<and> parse l = Some v"
    using loaded_value_parse by blast
  have lo: "\<forall>l ps. trim l \<noteq> [] \<and> parse l = Some (JObj ps) \<longrightarrow>
      loaded_value parse isNew l = Some (JObj ps)"
    using load_line_object(2) by blast
  from fo have fo': "\<forall>i. snd (load parse False text) i =
      (if i < length (loaded_values parse False text)
       then carried_annotations (loaded_values parse False text ! i) else None)" ..
  from to have to': "\<forall>i. snd (load parse True text) i =
      (if i < length (loaded_values parse True text)
       then Some (bootstrap_annotations (loaded_values parse True text ! i)) else None)" ..
  from f fo' u tl to' ix [of isNew] iu lp lo show ?thesis
    by (intro conjI)
qed

text \<open>
  In the example the annotated record is on the fourth line and is the second loaded
  value: its annotations are at index 1, and index 3 is empty.
\<close>

theorem overlay_index_is_document_index_witness:
  "snd (load example_parse False example_text) 1 = Some example_annot2
   \<and> loaded_values example_parse False example_text ! 1 = example_rec2
   \<and> snd (handleFileUpload example_parse example_text) 3 = None"
proof -
  note t = overlay_index_is_document_index [of example_parse example_text False]
  from t have o: "\<forall>i. snd (load example_parse False example_text) i =
          (if i < length (loaded_values example_parse False example_text)
           then carried_annotations (loaded_values example_parse False example_text ! i) else None)"
    and u: "handleFileUpload example_parse example_text = load example_parse False example_text"
    by blast+
  have c: "carried_annotations example_rec2 = Some example_annot2"
    by (simp add: carried_annotations_def example_rec2_def example_annot2_def)
  from o have "snd (load example_parse False example_text) 1 = Some example_annot2"
    and "snd (load example_parse False example_text) 3 = None"
    by (simp_all add: example_loaded_False c)
  then show ?thesis
    by (simp add: u example_loaded_False)
qed

text \<open>
  Claim C7. A line on which \<^verbatim>\<open>JSON.parse\<close> throws is dropped and the load goes on: the
  result is that of loading the lines before and after it, the document is what the lines
  before yield followed by what the lines after yield, and every non-blank line among them
  that parses to a JSON object has its record in the document. (The \<^verbatim>\<open>console.error\<close> is
  not modelled.)
\<close>

theorem malformed_line_dropped:
  assumes "split_nl text = pre @ bad # post" and "parse bad = None"
  shows "load parse isNew text = load_lines parse isNew (pre @ post)
    \<and> fst (load parse isNew text) =
        fst (load_lines parse isNew pre) @ fst (load_lines parse isNew post)
    \<and> fst (handleFileUpload parse text) =
        fst (load_lines parse False pre) @ fst (load_lines parse False post)
    \<and> (\<forall>l \<in> set (pre @ post). \<forall>ps. trim l \<noteq> [] \<and> parse l = Some (JObj ps) \<longrightarrow>
          (\<exists>ps'. JObj ps' \<in> set (fst (load parse isNew text))
                 \<and> same_fields (JObj ps) (JObj ps')))"
proof -
  have eq: "load parse n text = load_lines parse n (pre @ post)" for n
    using assms by (simp add: load_def load_lines_drop)
  have mem: "\<exists>ps'. JObj ps' \<in> set (fst (load parse isNew text)) \<and> same_fields (JObj ps) (JObj ps')"
    if l: "l \<in> set (pre @ post)" and nb: "trim l \<noteq> []" and p: "parse l = Some (JObj ps)" for l ps
  proof -
    from load_line_object(1) [where p = parse and l = l and ps = ps and n = isNew, OF nb p] obtain ps'
      where ps': "fst (load_line parse isNew ([], Map.empty) l) = [JObj ps']"
        and sf: "same_fields (JObj ps) (JObj ps')"
      by blast
    have "JObj ps' \<in> set (fst (load_lines parse isNew (pre @ post)))"
      unfolding load_lines_fst using l ps' by force
    with sf show ?thesis by (auto simp: eq)
  qed
  show ?thesis
    using mem by (simp add: eq handleFileUpload_eq load_lines_fst_append)
qed

text \<open>The example file, with its malformed second line.\<close>

theorem malformed_line_dropped_witness:
  "load example_parse True example_text = load_lines example_parse True [example_line1, [], example_line2]
   \<and> (\<exists>ps'. JObj ps' \<in> set (fst (load example_parse True example_text))
          \<and> same_fields example_rec1 (JObj ps'))"
proof -
  have s: "split_nl example_text = [example_line1] @ ''{bad'' # [[], example_line2]"
    by (simp add: example_split)
  note t = malformed_line_dropped [of example_text "[example_line1]" "''{bad''"
      "[[], example_line2]" example_parse True, OF s example_parse_simps(3)]
  from t have a: "load example_parse True example_text =
      load_lines example_parse True [example_line1, [], example_line2]"
    by simp
  from t have "\<forall>l \<in> set ([example_line1] @ [[], example_line2]).
      \<forall>ps. trim l \<noteq> [] \<and> example_parse l = Some (JObj ps) \<longrightarrow>
        (\<exists>ps'. JObj ps' \<in> set (fst (load example_parse True example_text))
               \<and> same_fields (JObj ps) (JObj ps'))"
    by blast
  then have "\<forall>ps. trim example_line1 \<noteq> [] \<and> example_parse example_line1 = Some (JObj ps) \<longrightarrow>
        (\<exists>ps'. JObj ps' \<in> set (fst (load example_parse True example_text))
               \<and> same_fields (JObj ps) (JObj ps'))"
    by simp
  with example_trim(1) example_parse_simps(1)
  have "\<exists>ps'. JObj ps' \<in> set (fst (load example_parse True example_text))
               \<and> same_fields example_rec1 (JObj ps')"
    unfolding example_rec1_def by blast
  with a show ?thesis by blast
qed

text \<open>
  Claim C1. Saving what was loaded writes one stringified object per loaded record, joined
  by newlines; the objects are, in order and one for one, the parsed values of the lines
  that were loaded, each with all its own properties other than \<^verbatim>\<open>user_annotations\<close>
  unchanged; every non-blank line that parses to a JSON object is among the loaded lines;
  and when \<^verbatim>\<open>JSON.stringify\<close> puts no newline into its output, the lines of the written
  text are exactly these stringified objects.
\<close>

theorem serialize_load_roundtrip:
  assumes "load parse isNew text = (es, an)"
  shows "outputLines stringify es an = join_nl (map stringify (newEntries es an))
    \<and> list_all2 same_fields
        (List.map_filter (loaded_value parse isNew) (split_nl text)) (newEntries es an)
    \<and> (\<forall>l ps. trim l \<noteq> [] \<and> parse l = Some (JObj ps) \<longrightarrow>
          loaded_value parse isNew l = Some (JObj ps))
    \<and> ((\<forall>v. CHR 0x0A \<notin> set (stringify v)) \<and> es \<noteq> [] \<longrightarrow>
          split_nl (outputLines stringify es an) = map stringify (newEntries es an))"
proof -
  have "list_all2 same_fields (List.map_filter (loaded_value parse isNew) (split_nl text)) es"
    using loaded_values_load_lines [of isNew same_fields parse "split_nl text"]
      init_if_new_same_fields assms
    by (simp add: load_def)
  then have l2: "list_all2 same_fields
      (List.map_filter (loaded_value parse isNew) (split_nl text)) (newEntries es an)"
    by (rule newEntries_same_fields)
  have sp: "split_nl (outputLines stringify es an) = map stringify (newEntries es an)"
    if "\<forall>v. CHR 0x0A \<notin> set (stringify v)" "es \<noteq> []"
  proof -
    from that(2) have "newEntries es an \<noteq> []"
      using length_newEntries [of es an] by (cases es) auto
    with that(1) show ?thesis
      unfolding outputLines_newEntries by (intro split_join_nl) auto
  qed
  show ?thesis
    using l2 sp load_line_object(2) by (simp add: outputLines_newEntries)
qed

text \<open>The example file read as an existing annotated file and written back.\<close>

theorem serialize_load_roundtrip_witness:
  "outputLines show_json (fst (load example_parse False example_text))
       (snd (load example_parse False example_text)) =
     example_line1 @ [CHR 0x0A] @ example_line2
   \<and> list_all2 same_fields [example_rec1, example_rec2] [example_rec1, example_rec2]"
proof -
  have l: "load example_parse False example_text = ([example_rec1, example_rec2], [1 \<mapsto> example_annot2])"
    by (rule example_load_False)
  have n: "newEntries [example_rec1, example_rec2] [1 \<mapsto> example_annot2] = [example_rec1, example_rec2]"
    by (simp add: newEntries_def save_entry_def example_rec1_def example_rec2_def example_annot2_def)
  have sh: "show_json example_rec1 = example_line1" "show_json example_rec2 = example_line2"
    by (simp_all add: example_rec1_def example_rec2_def example_annot2_def example_line1_def
        example_line2_def quoted_def)
  have lv: "List.map_filter (loaded_value example_parse False) (split_nl example_text) =
       [example_rec1, example_rec2]"
    by (simp add: example_split map_filter_simps loaded_value_def example_trim
        example_parse_simps example_load_obj)
  note t = serialize_load_roundtrip [OF l, of show_json]
  from t have "outputLines show_json [example_rec1, example_rec2] [1 \<mapsto> example_annot2] =
      join_nl (map show_json (newEntries [example_rec1, example_rec2] [1 \<mapsto> example_annot2]))"
    by blast
  then have o: "outputLines show_json [example_rec1, example_rec2] [1 \<mapsto> example_annot2] =
      example_line1 @ [CHR 0x0A] @ example_line2"
    unfolding n by (simp add: sh)
  from t have "list_all2 same_fields
      (List.map_filter (loaded_value example_parse False) (split_nl example_text))
      (newEntries [example_rec1, example_rec2] [1 \<mapsto> example_annot2])"
    by blast
  then have r: "list_all2 same_fields [example_rec1, example_rec2] [example_rec1, example_rec2]"
    unfolding n lv .
  from o r show ?thesis unfolding l by simp
qed

section \<open>Opening a new file: the claims\<close>

lemma fold_init_key:
  "k \<noteq> ''__proto__'' \<Longrightarrow>
   map_of (snd (fold (\<lambda>key newAnnot. if key \<notin> set T then init_key key newAnnot else newAnnot) ks acc)) k =
     (if k \<in> set ks \<and> k \<notin> set T then Some (JObj default_annot) else map_of (snd acc) k)"
  by (induction ks arbitrary: acc) (auto simp: init_key_def update_conv' split: prod.splits)

lemma own_props_made:
  "own_props (case x of (None, own) \<Rightarrow> JObj own | (Some proto, own) \<Rightarrow> JProto proto own) = snd x"
  by (simp split: prod.splits option.splits)

lemma initializeAnnotations_map_of:
  "k \<noteq> ''__proto__'' \<Longrightarrow>
   map_of (own_props (initializeAnnotations v)) k =
     (if k \<in> fst ` set (own_props v) \<and> k \<notin> set TELEMETRY_KEYS then Some (JObj default_annot) else None)"
  unfolding initializeAnnotations_def own_props_made
  by (simp add: fold_init_key)

text \<open>A key \<^verbatim>\<open>__proto__\<close> gets no annotation: the assignment sets the prototype.\<close>

lemma initializeAnnotations_proto:
  "initializeAnnotations (JObj [(''__proto__'', JStr ''p''), (''a'', JStr ''x'')]) =
     JProto default_annot [(''a'', JObj default_annot)]"
  by (simp add: initializeAnnotations_def init_key_def TELEMETRY_KEYS_def)

lemma replace_first_example:
  "replace_first ''.jsonl'' ''_annotated.jsonl'' ''f.jsonl'' = ''f_annotated.jsonl''"
  by simp

lemma handleSelectFile_new:
  assumes "dir (replace_first ''.jsonl'' ''_annotated.jsonl'' fileHandle) = None"
    and "dir fileHandle = Some content"
    and "load parse True content = (es, an)"
  shows "handleSelectFile parse stringify dir fileHandle w =
     w\<lparr>entries := es, annotations := an, currentIndex := 0,
       currentFileHandle := Some fileHandle,
       outputFileHandle := Some (replace_first ''.jsonl'' ''_annotated.jsonl'' fileHandle),
       inflight := inflight w @
         [(replace_first ''.jsonl'' ''_annotated.jsonl'' fileHandle, outputLines stringify es an)],
       writes := writes w @
         [(replace_first ''.jsonl'' ''_annotated.jsonl'' fileHandle, outputLines stringify es an)]\<rparr>"
  using assms by (simp add: handleSelectFile_def saveToDisk_def Let_def)

text \<open>
  Claim C3, as the code has it. When the annotated file is not found, opening a source
  issues exactly one write, at once and not through the debounce timer, of the loaded
  content; in that content every loaded record carries \<^verbatim>\<open>user_annotations\<close>: the ones it
  already carried in the source, if truthy, and otherwise one default annotation
  \<^verbatim>\<open>{correctness: 'unchecked', comment: ''}\<close> for each of its keys that is not a telemetry key,
  a key \<^verbatim>\<open>__proto__\<close> left aside.
\<close>

theorem bootstrap_write:
  assumes "dir (replace_first ''.jsonl'' ''_annotated.jsonl'' fileHandle) = None"
    and "dir fileHandle = Some content"
    and "load parse True content = (es, an)"
  shows "writes (handleSelectFile parse stringify dir fileHandle w) =
        writes w @ [(replace_first ''.jsonl'' ''_annotated.jsonl'' fileHandle,
                     join_nl (map stringify (newEntries es an)))]
    \<and> timeoutRef (handleSelectFile parse stringify dir fileHandle w) = timeoutRef w
    \<and> list_all2 (\<lambda>v e. map_of (own_props e) ''user_annotations'' = Some (bootstrap_annotations v))
        (List.map_filter (loaded_value parse True) (split_nl content)) (newEntries es an)
    \<and> (\<forall>v. carried_annotations v = None \<longrightarrow>
          (\<forall>k. k \<noteq> ''__proto__'' \<longrightarrow>
             map_of (own_props (bootstrap_annotations v)) k =
               (if k \<in> fst ` set (own_props v) \<and> k \<notin> set TELEMETRY_KEYS
                then Some (JObj default_annot) else None)))"
proof -
  have ix: "overlay_indexed (es, an)"
    using overlay_indexed_load_lines [of parse True "split_nl content"] assms(3)
    by (simp add: load_def)
  have c: "list_all2 (\<lambda>v e. carried_annotations e = Some (bootstrap_annotations v))
      (List.map_filter (loaded_value parse True) (split_nl content)) es"
    using loaded_values_load_lines
      [of True "\<lambda>v e. carried_annotations e = Some (bootstrap_annotations v)" parse "split_nl content"]
      init_if_new_carried assms(3)
    by (simp add: load_def)
  have l2: "list_all2 (\<lambda>v e. map_of (own_props e) ''user_annotations'' = Some (bootstrap_annotations v))
      (List.map_filter (loaded_value parse True) (split_nl content)) (newEntries es an)"
  proof (rule list_all2_all_nthI)
    from c show "length (List.map_filter (loaded_value parse True) (split_nl content)) =
        length (newEntries es an)"
      by (simp add: length_newEntries list_all2_lengthD)
  next
    fix i assume "i < length (List.map_filter (loaded_value parse True) (split_nl content))"
    with c have i: "i < length es"
      and ca: "carried_annotations (es ! i) =
        Some (bootstrap_annotations (List.map_filter (loaded_value parse True) (split_nl content) ! i))"
      by (auto simp: list_all2_conv_all_nth)
    from ix i ca have "an i =
        Some (bootstrap_annotations (List.map_filter (loaded_value parse True) (split_nl content) ! i))"
      by (simp add: overlay_indexed_def)
    with i carried_truthy [OF ca]
    show "map_of (own_props (newEntries es an ! i)) ''user_annotations'' =
        Some (bootstrap_annotations (List.map_filter (loaded_value parse True) (split_nl content) ! i))"
      by (simp add: newEntries_nth save_entry_annotations)
  qed
  have d: "\<forall>v. carried_annotations v = None \<longrightarrow>
          (\<forall>k. k \<noteq> ''__proto__'' \<longrightarrow>
             map_of (own_props (bootstrap_annotations v)) k =
               (if k \<in> fst ` set (own_props v) \<and> k \<notin> set TELEMETRY_KEYS
                then Some (JObj default_annot) else None))"
    by (simp add: bootstrap_annotations_def initializeAnnotations_map_of)
  show ?thesis
    using l2 d
    by (simp add: handleSelectFile_new [OF assms] outputLines_newEntries)
qed

text \<open>
  The example file in a folder without its annotated file: one write, of two lines, the
  first record with initialised annotations for its one tracked key.
\<close>

theorem bootstrap_write_witness:
  "writes (handleSelectFile example_parse show_json [''f.jsonl'' \<mapsto> example_text] ''f.jsonl''
             initial_viewer) =
     [(''f_annotated.jsonl'',
       show_json (JObj [(''a'', JStr ''x''), (''status'', JStr ''ok''),
                        (''user_annotations'', example_init1)])
       @ [CHR 0x0A] @ show_json example_rec2)]"
proof -
  have d: "[''f.jsonl'' \<mapsto> example_text] (replace_first ''.jsonl'' ''_annotated.jsonl'' ''f.jsonl'') = None"
    "[''f.jsonl'' \<mapsto> example_text] ''f.jsonl'' = Some example_text"
    by simp_all
  have n: "newEntries
      [JObj [(''a'', JStr ''x''), (''status'', JStr ''ok''), (''user_annotations'', example_init1)],
       example_rec2]
      [0 \<mapsto> example_init1, 1 \<mapsto> example_annot2] =
      [JObj [(''a'', JStr ''x''), (''status'', JStr ''ok''), (''user_annotations'', example_init1)],
       example_rec2]"
    by (simp add: newEntries_def save_entry_def example_rec2_def example_annot2_def example_init1_def)
  note t = bootstrap_write [OF d example_load_True, of show_json initial_viewer]
  from t have "writes (handleSelectFile example_parse show_json [''f.jsonl'' \<mapsto> example_text]
        ''f.jsonl'' initial_viewer) =
      writes initial_viewer @ [(replace_first ''.jsonl'' ''_annotated.jsonl'' ''f.jsonl'',
        join_nl (map show_json (newEntries
          [JObj [(''a'', JStr ''x''), (''status'', JStr ''ok''), (''user_annotations'', example_init1)],
           example_rec2]
          [0 \<mapsto> example_init1, 1 \<mapsto> example_annot2])))]"
    by blast
  then show ?thesis
    unfolding n by (simp add: initial_viewer_def)
qed

text \<open>
  Claim C3 as stated fails on a source whose record already carries annotations: the one
  write is the record as it was, with the annotation of field \<^verbatim>\<open>a\<close> at \<^verbatim>\<open>yes\<close> and no
  annotation for the tracked field \<^verbatim>\<open>b\<close>.
\<close>

theorem bootstrap_counterexample:
  "writes (handleSelectFile example_parse show_json example_dir ''f.jsonl'' initial_viewer) =
     [(''f_annotated.jsonl'',
       show_json (JObj [(''a'', JStr ''y''), (''b'', JStr ''z''),
         (''user_annotations'',
          JObj [(''a'', JObj [(''correctness'', JStr ''yes''), (''comment'', JStr ''fine'')])])]))]"
proof -
  have l: "load example_parse True example_line2 = ([example_rec2], [0 \<mapsto> example_annot2])"
    by (simp add: load_def load_lines_def load_line_def split_nl_line example_lines_nl
        example_trim example_parse_simps example_load_obj)
  have n: "newEntries [example_rec2] [0 \<mapsto> example_annot2] = [example_rec2]"
    by (simp add: newEntries_def save_entry_def example_rec2_def example_annot2_def)
  have d: "example_dir (replace_first ''.jsonl'' ''_annotated.jsonl'' ''f.jsonl'') = None"
    "example_dir ''f.jsonl'' = Some example_line2"
    by (simp_all add: example_dir_def)
  show ?thesis
    unfolding handleSelectFile_new [OF d l]
    by (simp add: initial_viewer_def outputLines_newEntries n replace_first_example)
      (simp add: example_rec2_def example_annot2_def)
qed

section \<open>Annotations and autosave: the claims\<close>

lemma updateAnnotation_other:
  "j \<noteq> i \<Longrightarrow> updateAnnotation H i key field val prev j = prev j"
  by (simp add: updateAnnotation_def Let_def)

lemma falsy_no_props: "\<not> truthy a \<Longrightarrow> own_props a = []"
  by (cases a) (auto simp: index_props_def)

text \<open>
  What an annotation update does to the overlay, whatever the runtime hides: only the
  current record changes; there every other key reads as before, and the key holds an
  object with the new value in the sub-field and, in the other sub-fields, what the member
  read of the key had there if it was truthy, the defaults if it was not.
\<close>

lemma updateAnnotation_frame:
  "\<exists>ps fs. updateAnnotation H i key field val prev i = Some (JObj ps)
     \<and> map_of ps key = Some (JObj fs)
     \<and> (\<forall>k. k \<noteq> key \<longrightarrow> map_of ps k = field_annot prev i k)
     \<and> map_of fs field = Some (JStr val)
     \<and> (\<forall>g. g \<noteq> field \<longrightarrow>
           map_of fs g =
             (let m = read_member H
                        (case prev i of Some a \<Rightarrow> if truthy a then a else JObj [] | None \<Rightarrow> JObj [])
                        key
              in if member_truthy m then map_of (member_props m) g else map_of default_annot g))"
proof -
  define cur where "cur = (case prev i of Some a \<Rightarrow> if truthy a then a else JObj [] | None \<Rightarrow> JObj [])"
  define m where "m = read_member H cur key"
  define fa where "fa = (if member_truthy m then m else Value (JObj default_annot))"
  have cur: "map_of (own_props cur) k = field_annot prev i k" for k
    by (auto simp: cur_def field_annot_def falsy_no_props split: option.splits)
  have fa: "map_of (member_props fa) g =
      (if member_truthy m then map_of (member_props m) g else map_of default_annot g)" for g
    by (simp add: fa_def)
  have u: "updateAnnotation H i key field val prev i =
      Some (JObj (AList.update key (JObj (AList.update field (JStr val) (member_props fa))) (own_props cur)))"
    by (simp add: updateAnnotation_def Let_def cur_def fa_def m_def)
  have 1: "map_of (AList.update key (JObj (AList.update field (JStr val) (member_props fa))) (own_props cur)) key
      = Some (JObj (AList.update field (JStr val) (member_props fa)))"
    by (simp add: update_conv')
  have 2: "k \<noteq> key \<Longrightarrow>
      map_of (AList.update key (JObj (AList.update field (JStr val) (member_props fa))) (own_props cur)) k
      = field_annot prev i k" for k
    by (simp add: update_conv' cur)
  have 3: "map_of (AList.update field (JStr val) (member_props fa)) field = Some (JStr val)"
    by (simp add: update_conv')
  have 4: "g \<noteq> field \<Longrightarrow> map_of (AList.update field (JStr val) (member_props fa)) g =
      (let m = read_member H cur key
       in if member_truthy m then map_of (member_props m) g else map_of default_annot g)" for g
    by (simp add: update_conv' fa m_def Let_def)
  show ?thesis
    unfolding u cur_def [symmetric] using 1 2 3 4 by blast
qed

lemma handleAnnotationChange_fields:
  "annotations (handleAnnotationChange H key field val w) =
     updateAnnotation H (currentIndex w) key field val (annotations w)"
  "entries (handleAnnotationChange H key field val w) = entries w"
  "currentIndex (handleAnnotationChange H key field val w) = currentIndex w"
  "outputFileHandle (handleAnnotationChange H key field val w) = outputFileHandle w"
  "writes (handleAnnotationChange H key field val w) = writes w"
  "inflight (handleAnnotationChange H key field val w) = inflight w"
  by (simp_all add: handleAnnotationChange_def debouncedSave_def Let_def split: option.splits)

lemma handleAnnotationChange_timer:
  "outputFileHandle w = Some h \<Longrightarrow>
   timeoutRef (handleAnnotationChange H key field val w) =
     Some (500, h, entries w, updateAnnotation H (currentIndex w) key field val (annotations w))"
  by (simp add: handleAnnotationChange_def debouncedSave_def Let_def)

text \<open>The hidden members of an object in the examples.\<close>

lemma example_hidden_simps:
  "example_hidden (JObj ps) ''constructor''" "\<not> example_hidden (JObj ps) ''a''"
  by (simp_all add: example_hidden_def object_prototype_members_def)

text \<open>
  Claim C9 says that after an annotation update the entry of the field is defined with the
  defaults \<^verbatim>\<open>{correctness: 'unchecked', comment: ''}\<close> filled in when it was absent. The code
  means to do so (\<^verbatim>\<open>currentEntryAnnots[key] || { correctness: 'unchecked', comment: '' }\<close>) and
  misses the keys that name a member of \<^verbatim>\<open>Object.prototype\<close>: with no annotation stored,
  marking a field \<^verbatim>\<open>constructor\<close> correct reads the inherited function, which is truthy and
  has nothing to spread, and stores \<^verbatim>\<open>{correctness: 'yes'}\<close> with no comment; for a field
  \<^verbatim>\<open>a\<close> the same update stores the default comment as well.
\<close>

theorem annotation_default_missing:
  "updateAnnotation example_hidden 0 ''constructor'' ''correctness'' ''yes'' Map.empty 0 =
     Some (JObj [(''constructor'', JObj [(''correctness'', JStr ''yes'')])])
   \<and> updateAnnotation example_hidden 0 ''a'' ''correctness'' ''yes'' Map.empty 0 =
     Some (JObj [(''a'', JObj [(''correctness'', JStr ''yes''), (''comment'', JStr '''')])])"
  by (simp add: updateAnnotation_def read_member_def example_hidden_simps default_annot_def)

lemma elapse_fire:
  "timeoutRef w = Some (r, h, ents, annots) \<Longrightarrow> r \<le> d \<Longrightarrow>
   elapse S d w =
     w\<lparr>timeoutRef := None,
       inflight := inflight w @ [(h, outputLines S ents annots)],
       writes := writes w @ [(h, outputLines S ents annots)]\<rparr>"
  by (simp add: elapse_def saveToDisk_def Let_def)

lemma elapse_wait:
  "timeoutRef w = Some (r, h, ents, annots) \<Longrightarrow> d < r \<Longrightarrow>
   elapse S d w = w\<lparr>timeoutRef := Some (r - d, h, ents, annots)\<rparr>"
  by (simp add: elapse_def)

lemma run_Nil: "run H S w [] = w"
  by (simp add: run_def)

lemma run_Cons: "run H S w (e # evs) = run H S (step H S w e) evs"
  by (simp add: run_def)

lemma run_append: "run H S w (xs @ ys) = run H S (run H S w xs) ys"
  by (simp add: run_def)

lemma run_settled:
  "run H S w (replicate n WriteSettled) = w\<lparr>inflight := drop n (inflight w)\<rparr>"
proof (induction n arbitrary: w)
  case 0
  show ?case by (simp add: run_Nil)
next
  case (Suc n)
  show ?case
    by (simp add: run_Cons Suc.IH drop_Suc tl_drop)
qed

text \<open>An edit followed by a stretch of time that lets the timer run out, or not.\<close>

lemma edit_then_quiet:
  assumes "outputFileHandle w = Some h" "500 \<le> d"
  shows "elapse S d (handleAnnotationChange H key field val w) =
     w\<lparr>annotations := updateAnnotation H (currentIndex w) key field val (annotations w),
       timeoutRef := None,
       inflight := inflight w @
         [(h, outputLines S (entries w) (updateAnnotation H (currentIndex w) key field val (annotations w)))],
       writes := writes w @
         [(h, outputLines S (entries w) (updateAnnotation H (currentIndex w) key field val (annotations w)))]\<rparr>"
  using assms
  by (simp add: elapse_fire [OF handleAnnotationChange_timer [OF assms(1)]]
      handleAnnotationChange_fields)
    (simp add: handleAnnotationChange_def debouncedSave_def Let_def)

lemma edit_then_short:
  assumes "outputFileHandle w = Some h" "d < 500"
  shows "elapse S d (handleAnnotationChange H key field val w) =
     w\<lparr>annotations := updateAnnotation H (currentIndex w) key field val (annotations w),
       timeoutRef := Some (500 - d, h, entries w,
         updateAnnotation H (currentIndex w) key field val (annotations w))\<rparr>"
  using assms
  by (simp add: elapse_wait [OF handleAnnotationChange_timer [OF assms(1)]])
    (simp add: handleAnnotationChange_def debouncedSave_def Let_def)

lemma elapse_annotations: "annotations (elapse S d w) = annotations w"
  by (simp add: elapse_def saveToDisk_def Let_def split: option.splits)

lemma burst_one_write:
  "outputFileHandle w = Some h \<Longrightarrow> length ms = length ds \<Longrightarrow> ms \<noteq> [] \<Longrightarrow>
   \<forall>d \<in> set (butlast ds). d < 500 \<Longrightarrow> 500 \<le> last ds \<Longrightarrow>
   writes (run H S w (schedule ms ds)) =
     writes w @ [(h, outputLines S (entries w) (annotations (run H S w (schedule ms ds))))]"
proof (induction ms arbitrary: ds w)
  case Nil
  then show ?case by simp
next
  case (Cons m ms)
  obtain key field val where m: "m = (key, field, val)" by (cases m)
  from Cons.prems(2) obtain d ds' where ds: "ds = d # ds'" by (cases ds) auto
  show ?case
  proof (cases "ms = []")
    case True
    with Cons.prems ds have d: "500 \<le> d" and "ds' = []" by auto
    with True show ?thesis
      by (simp add: m ds run_Cons run_Nil edit_then_quiet [OF Cons.prems(1) d])
  next
    case False
    with Cons.prems(2) ds have ne: "ds' \<noteq> []" by auto
    with Cons.prems(4) ds have d: "d < 500" by simp
    let ?w1 = "elapse S d (handleAnnotationChange H key field val w)"
    have w1: "outputFileHandle ?w1 = Some h" "writes ?w1 = writes w" "entries ?w1 = entries w"
      using Cons.prems(1) by (simp_all add: edit_then_short [OF Cons.prems(1) d])
    have "writes (run H S ?w1 (schedule ms ds')) =
      writes ?w1 @ [(h, outputLines S (entries ?w1) (annotations (run H S ?w1 (schedule ms ds'))))]"
      using Cons.prems ds ne False by (intro Cons.IH [OF w1(1)]) auto
    then show ?thesis
      by (simp add: m ds run_Cons w1)
  qed
qed

lemma spaced_writes:
  "outputFileHandle w = Some h \<Longrightarrow> length ms = length ds \<Longrightarrow> \<forall>d \<in> set ds. 500 \<le> d \<Longrightarrow>
   length (writes (run H S w (schedule ms ds))) = length (writes w) + length ms"
proof (induction ms arbitrary: ds w)
  case Nil
  then show ?case by (simp add: run_Nil)
next
  case (Cons m ms)
  obtain key field val where m: "m = (key, field, val)" by (cases m)
  from Cons.prems(2) obtain d ds' where ds: "ds = d # ds'" by (cases ds) auto
  with Cons.prems have d: "500 \<le> d" by simp
  let ?w1 = "elapse S d (handleAnnotationChange H key field val w)"
  have w1: "outputFileHandle ?w1 = Some h" "length (writes ?w1) = Suc (length (writes w))"
    using Cons.prems(1) by (simp_all add: edit_then_quiet [OF Cons.prems(1) d])
  have "length (writes (run H S ?w1 (schedule ms ds'))) = length (writes ?w1) + length ms"
    using Cons.prems ds by (intro Cons.IH [OF w1(1)]) auto
  then show ?case
    by (simp add: m ds run_Cons w1)
qed

text \<open>
  Claim C4. With an output file open, \<open>N \<ge> 1\<close> annotation edits, each followed by a
  stretch of time: when every stretch but the last is shorter than the 500 units of the
  quiet period and the last is not, exactly one write is issued, and it carries the entries
  and the annotations as they are after the last edit; when every stretch is at least the
  quiet period, \<open>N\<close> writes are issued.
\<close>

theorem debounce_coalescing:
  assumes "outputFileHandle w = Some h" and "length ms = length ds" and "ms \<noteq> []"
  shows "((\<forall>d \<in> set (butlast ds). d < 500) \<and> 500 \<le> last ds \<longrightarrow>
            writes (run H S w (schedule ms ds)) =
              writes w @ [(h, outputLines S (entries w) (annotations (run H S w (schedule ms ds))))])
    \<and> ((\<forall>d \<in> set ds. 500 \<le> d) \<longrightarrow>
            length (writes (run H S w (schedule ms ds))) = length (writes w) + length ms)"
  using burst_one_write [OF assms, of H S] spaced_writes [OF assms(1,2), of H S] by blast

text \<open>
  Two edits on the example session: 100 units apart and then quiet, one write; 500 and 600
  units apart, two writes.
\<close>

theorem debounce_coalescing_witness:
  "length (writes (run example_hidden show_json example_session
      (schedule [(''a'', ''correctness'', ''no''), (''a'', ''comment'', ''typo'')] [100, 500]))) = 1
   \<and> length (writes (run example_hidden show_json example_session
      (schedule [(''a'', ''correctness'', ''no''), (''a'', ''comment'', ''typo'')] [500, 600]))) = 2"
proof -
  have h: "outputFileHandle example_session = Some ''f_annotated.jsonl''"
    and w: "writes example_session = []"
    by (simp_all add: example_session_def)
  have l: "length [(''a'', ''correctness'', ''no''), (''a'', ''comment'', ''typo'')] = length [100, 500::nat]"
    "length [(''a'', ''correctness'', ''no''), (''a'', ''comment'', ''typo'')] = length [500, 600::nat]"
    and n: "[(''a'', ''correctness'', ''no''), (''a'', ''comment'', ''typo'')] \<noteq> []"
    by simp_all
  from debounce_coalescing [OF h l(1) n, of example_hidden show_json]
  have 1: "writes (run example_hidden show_json example_session
      (schedule [(''a'', ''correctness'', ''no''), (''a'', ''comment'', ''typo'')] [100, 500])) =
    writes example_session @ [(''f_annotated.jsonl'', outputLines show_json (entries example_session)
      (annotations (run example_hidden show_json example_session
        (schedule [(''a'', ''correctness'', ''no''), (''a'', ''comment'', ''typo'')] [100, 500]))))]"
    by simp
  from debounce_coalescing [OF h l(2) n, of example_hidden show_json]
  have 2: "length (writes (run example_hidden show_json example_session
      (schedule [(''a'', ''correctness'', ''no''), (''a'', ''comment'', ''typo'')] [500, 600]))) =
    length (writes example_session) + 2"
    by simp
  from 1 2 show ?thesis by (simp add: w)
qed

text \<open>
  Claim C2 as stated fails: nothing holds a write back while another is in flight. On the
  example session, an edit, 500 units, another edit and 500 units more, with no write
  settling in between, leave two writes to the same file in flight together.
\<close>

theorem overlapping_writes_counterexample:
  "map fst (inflight (run example_hidden show_json example_session
      [AnnotationChange ''a'' ''correctness'' ''no'', Elapse 500,
       AnnotationChange ''a'' ''comment'' ''typo'', Elapse 500])) =
     [''f_annotated.jsonl'', ''f_annotated.jsonl'']"
proof -
  have h: "outputFileHandle example_session = Some ''f_annotated.jsonl''"
    by (simp add: example_session_def)
  have d: "(500::nat) \<le> 500" by simp
  let ?w1 = "elapse show_json 500 (handleAnnotationChange example_hidden ''a'' ''correctness'' ''no'' example_session)"
  have h1: "outputFileHandle ?w1 = Some ''f_annotated.jsonl''"
    and i1: "map fst (inflight ?w1) = [''f_annotated.jsonl'']"
    by (simp_all add: edit_then_quiet [OF h d]) (simp_all add: example_session_def)
  show ?thesis
    by (simp add: run_Cons run_Nil edit_then_quiet [OF h1 d] i1)
qed

text \<open>
  Claim C2, as the code has it. An edit re-arms the timer, whatever is in flight; when the
  quiet period has passed the state after the edit is written, in a write of its own that
  joins the writes still in flight. It overlaps none exactly when all of them have settled
  by then (here \<open>n\<close> writes settle during the quiet period).
\<close>

theorem write_when_timer_elapses:
  assumes "outputFileHandle w = Some h" and "500 \<le> d"
  shows "writes (run H S w (AnnotationChange key field val # replicate n WriteSettled @ [Elapse d])) =
        writes w @ [(h, outputLines S (entries w)
                       (updateAnnotation H (currentIndex w) key field val (annotations w)))]
    \<and> inflight (run H S w (AnnotationChange key field val # replicate n WriteSettled @ [Elapse d])) =
        drop n (inflight w) @ [(h, outputLines S (entries w)
                       (updateAnnotation H (currentIndex w) key field val (annotations w)))]
    \<and> (length (inflight (run H S w
          (AnnotationChange key field val # replicate n WriteSettled @ [Elapse d]))) = 1
        \<longleftrightarrow> length (inflight w) \<le> n)"
proof -
  let ?a = "updateAnnotation H (currentIndex w) key field val (annotations w)"
  let ?w1 = "handleAnnotationChange H key field val w"
  let ?w2 = "?w1\<lparr>inflight := drop n (inflight ?w1)\<rparr>"
  have t: "timeoutRef ?w2 = Some (500, h, entries w, ?a)"
    using handleAnnotationChange_timer [OF assms(1), of H key field val] by simp
  have r: "run H S w (AnnotationChange key field val # replicate n WriteSettled @ [Elapse d]) =
      elapse S d ?w2"
    by (simp add: run_Cons run_append run_settled run_Nil)
  show ?thesis
    unfolding r elapse_fire [OF t assms(2)]
    by (simp add: handleAnnotationChange_fields)
qed

text \<open>
  On the example session with one write in flight: an edit and a quiet period during which
  nothing settles end with two writes in flight; if the write settles in time, with one.
\<close>

theorem write_when_timer_elapses_witness:
  "length (inflight (run example_hidden show_json (example_session\<lparr>inflight := [(''f_annotated.jsonl'', [])]\<rparr>)
      (AnnotationChange ''a'' ''comment'' ''typo'' # replicate 0 WriteSettled @ [Elapse 500]))) = 2
   \<and> length (inflight (run example_hidden show_json (example_session\<lparr>inflight := [(''f_annotated.jsonl'', [])]\<rparr>)
      (AnnotationChange ''a'' ''comment'' ''typo'' # replicate 1 WriteSettled @ [Elapse 500]))) = 1"
proof -
  have h: "outputFileHandle (example_session\<lparr>inflight := [(''f_annotated.jsonl'', [])]\<rparr>) =
      Some ''f_annotated.jsonl''"
    by (simp add: example_session_def)
  have d: "(500::nat) \<le> 500" by simp
  from write_when_timer_elapses [OF h d, of example_hidden show_json "''a''" "''comment''" "''typo''" 0]
  have 1: "length (inflight (run example_hidden show_json (example_session\<lparr>inflight := [(''f_annotated.jsonl'', [])]\<rparr>)
      (AnnotationChange ''a'' ''comment'' ''typo'' # replicate 0 WriteSettled @ [Elapse 500]))) = 2"
    by simp
  from write_when_timer_elapses [OF h d, of example_hidden show_json "''a''" "''comment''" "''typo''" 1]
  have 2: "length (inflight (run example_hidden show_json (example_session\<lparr>inflight := [(''f_annotated.jsonl'', [])]\<rparr>)
      (AnnotationChange ''a'' ''comment'' ''typo'' # replicate 1 WriteSettled @ [Elapse 500]))) = 1"
    by simp
  from 1 2 show ?thesis by blast
qed

text \<open>The example session is what opening the source beside its annotated file gives.\<close>

lemma example_session_opened:
  "handleSelectFile example_parse S (example_dir(''f_annotated.jsonl'' \<mapsto> example_line2))
     ''f.jsonl'' initial_viewer = example_session"
proof -
  have l: "load example_parse False example_line2 = ([example_rec2], [0 \<mapsto> example_annot2])"
    by (simp add: load_def load_lines_def load_line_def split_nl_line example_lines_nl
        example_trim example_parse_simps example_load_obj)
  show ?thesis
    by (simp add: handleSelectFile_def l initial_viewer_def example_session_def)
qed

section \<open>Grid editing: the claims\<close>

lemma indexOf_ge: "- 1 \<le> indexOf xs x"
  by (induction xs) (auto simp: Let_def)

lemma indexOf_zero: "indexOf xs x = 0 \<Longrightarrow> at_index xs 0 = Some x"
proof (cases xs)
  case Nil
  then show "indexOf xs x = 0 \<Longrightarrow> at_index xs 0 = Some x" by simp
next
  case (Cons y ys)
  assume "indexOf xs x = 0"
  with Cons indexOf_ge [of ys x] have "y = x"
    by (auto simp: Let_def split: if_splits)
  with Cons show "at_index xs 0 = Some x" by (simp add: at_index_def)
qed

lemma indexOf_member:
  "x \<in> set xs \<Longrightarrow> 0 \<le> indexOf xs x \<and> indexOf xs x < int (length xs) \<and> xs ! nat (indexOf xs x) = x"
proof (induction xs)
  case Nil
  then show ?case by simp
next
  case (Cons y ys)
  show ?case
  proof (cases "y = x")
    case True
    then show ?thesis by simp
  next
    case False
    with Cons.prems have "x \<in> set ys" by simp
    from Cons.IH [OF this] False show ?thesis
      by (simp add: Let_def nat_add_distrib)
  qed
qed

lemma at_index_indexOf: "x \<in> set xs \<Longrightarrow> at_index xs (indexOf xs x) = Some x"
  using indexOf_member [of x xs] by (simp add: at_index_def)

text \<open>
  Claim C5 as stated fails: deleting a column takes its name out of \<^verbatim>\<open>headers\<close> and
  leaves the rows alone, so a row keeps the key. In the example table, deleting
  \<^verbatim>\<open>city\<close> leaves the first row with its \<^verbatim>\<open>city\<close>, outside the headers.
\<close>

theorem delete_column_counterexample:
  "row_invariant example_grid
   \<and> headers (handleDeleteColumn True example_grid) = [''name'']
   \<and> (data (handleDeleteColumn True example_grid) ! 0) ''city'' = Some ''london''
   \<and> \<not> row_invariant (handleDeleteColumn True example_grid)"
  by (simp add: row_invariant_def handleDeleteColumn_def example_grid_def)

text \<open>
  Claim C5, as the code has it. Deleting the column of the context menu, once confirmed,
  removes its name from \<^verbatim>\<open>headers\<close> and closes the menu; every row is left as it was, for
  the remaining columns and for the deleted one. So the row invariant of a table that had
  it holds afterwards exactly when no row carried the deleted key. Without confirmation
  only the menu closes.
\<close>

theorem delete_column_headers_only:
  assumes "contextMenu g = Some cm"
  shows "headers (handleDeleteColumn True g) = filter (\<lambda>h. h \<noteq> menu_header cm) (headers g)
    \<and> data (handleDeleteColumn True g) = data g
    \<and> contextMenu (handleDeleteColumn True g) = None
    \<and> (row_invariant g \<longrightarrow>
         (row_invariant (handleDeleteColumn True g) \<longleftrightarrow>
            (\<forall>r \<in> set (data g). menu_header cm \<notin> dom r)))
    \<and> handleDeleteColumn False g = g\<lparr>contextMenu := None\<rparr>"
proof -
  have "row_invariant (handleDeleteColumn True g) \<longleftrightarrow>
      (\<forall>r \<in> set (data g). menu_header cm \<notin> dom r)" if "row_invariant g"
    using that assms
    by (simp add: row_invariant_def handleDeleteColumn_def) blast
  with assms show ?thesis
    by (simp add: handleDeleteColumn_def)
qed

theorem delete_column_headers_only_witness:
  "headers (handleDeleteColumn True example_grid) = [''name'']
   \<and> data (handleDeleteColumn True example_grid) = data example_grid"
proof -
  have c: "contextMenu example_grid =
      Some \<lparr>mouseX = 10, mouseY = 20, menu_header = ''city'', menu_index = 1\<rparr>"
    by (simp add: example_grid_def)
  from delete_column_headers_only [OF c]
  have "headers (handleDeleteColumn True example_grid) =
      filter (\<lambda>h. h \<noteq> ''city'') (headers example_grid)"
    and d: "data (handleDeleteColumn True example_grid) = data example_grid"
    by simp_all
  then show ?thesis by (simp add: example_grid_def)
qed

text \<open>
  Claim C6. On a cell in edit whose text is \<open>X\<close>: Escape leaves edit mode and changes
  nothing else, so the selection stays and the row holds its value from before the edit;
  Enter writes \<open>X\<close> into the row at that cell and into no other cell, leaves edit mode and
  selects the same column one row down, or the same row when it is the last.
\<close>

theorem edit_escape_enter:
  assumes "isEditing g" and "rowIndex < length (data g)"
  shows "handleKeyDown Escape X rowIndex header g = Inr (g\<lparr>isEditing := False\<rparr>)
    \<and> (\<exists>g'. handleKeyDown Enter X rowIndex header g = Inr g'
          \<and> \<not> isEditing g'
          \<and> length (data g') = length (data g)
          \<and> (data g' ! rowIndex) header = Some X
          \<and> (\<forall>r c. r < length (data g) \<and> (r \<noteq> rowIndex \<or> c \<noteq> header) \<longrightarrow>
                (data g' ! r) c = (data g ! r) c)
          \<and> headers g' = headers g
          \<and> selectedCell g' =
              Some \<lparr>row = (if Suc rowIndex < length (data g) then int rowIndex + 1 else int rowIndex),
                    col = Some header\<rparr>)"
proof -
  have esc: "handleKeyDown Escape X rowIndex header g = Inr (g\<lparr>isEditing := False\<rparr>)"
    using assms(1) by (simp add: handleKeyDown_def)
  let ?g' = "g\<lparr>data := (data g)[rowIndex := (data g ! rowIndex)(header \<mapsto> X)],
      isEditing := False,
      selectedCell := Some \<lparr>row = min (int (length (data g)) - 1) (int rowIndex + 1),
                            col = Some header\<rparr>\<rparr>"
  have ent: "handleKeyDown Enter X rowIndex header g = Inr ?g'"
    using assms by (simp add: handleKeyDown_def handleCellChange_def Let_def)
  have row: "min (int (length (data g)) - 1) (int rowIndex + 1) =
      (if Suc rowIndex < length (data g) then int rowIndex + 1 else int rowIndex)"
    using assms(2) by auto
  have cells: "(data ?g' ! r) c = (data g ! r) c"
    if "r < length (data g)" "r \<noteq> rowIndex \<or> c \<noteq> header" for r c
    using that by (cases "r = rowIndex") (auto simp: nth_list_update)
  have "\<not> isEditing ?g'" "length (data ?g') = length (data g)"
    "(data ?g' ! rowIndex) header = Some X" "headers ?g' = headers g"
    using assms(2) by simp_all
  with esc ent row cells show ?thesis
    by (intro conjI exI [of _ ?g']) simp_all
qed

text \<open>
  In the example table the cell \<^verbatim>\<open>city\<close> of the first row is in edit: after Escape it
  still reads \<^verbatim>\<open>london\<close>; after Enter it reads the typed text.
\<close>

theorem edit_escape_enter_witness:
  "handleKeyDown Escape ''X'' 0 ''city'' example_grid = Inr (example_grid\<lparr>isEditing := False\<rparr>)
   \<and> (data (example_grid\<lparr>isEditing := False\<rparr>) ! 0) ''city'' = Some ''london''
   \<and> (\<exists>g'. handleKeyDown Enter ''X'' 0 ''city'' example_grid = Inr g'
         \<and> (data g' ! 0) ''city'' = Some ''X''
         \<and> selectedCell g' = Some \<lparr>row = 1, col = Some ''city''\<rparr>)"
proof -
  have e: "isEditing example_grid" and l: "0 < length (data example_grid)"
    and l2: "length (data example_grid) = 2"
    by (simp_all add: example_grid_def)
  note t = edit_escape_enter [OF e l, of "''X''" "''city''"]
  from t have 1: "handleKeyDown Escape ''X'' 0 ''city'' example_grid =
      Inr (example_grid\<lparr>isEditing := False\<rparr>)"
    by blast
  from t obtain g' where "handleKeyDown Enter ''X'' 0 ''city'' example_grid = Inr g'"
    "(data g' ! 0) ''city'' = Some ''X''"
    "selectedCell g' = Some \<lparr>row = (if Suc 0 < length (data example_grid) then int 0 + 1 else int 0),
        col = Some ''city''\<rparr>"
    by blast
  then have 2: "\<exists>g'. handleKeyDown Enter ''X'' 0 ''city'' example_grid = Inr g'
         \<and> (data g' ! 0) ''city'' = Some ''X''
         \<and> selectedCell g' = Some \<lparr>row = 1, col = Some ''city''\<rparr>"
    by (simp add: l2)
  have 3: "(data (example_grid\<lparr>isEditing := False\<rparr>) ! 0) ''city'' = Some ''london''"
    by (simp add: example_grid_def)
  from 1 2 3 show ?thesis by blast
qed

text \<open>
  Claim C8. In navigation mode the arrow keys stop at the edge of the grid: on the last
  row ArrowDown selects the same row again (and the same cell, for a column of the
  table), on the first column ArrowLeft selects the same cell again; neither fails and
  neither changes the table.
\<close>

theorem navigation_clamped:
  assumes "\<not> isEditing g"
  shows "(Suc rowIndex = length (data g) \<longrightarrow>
           (\<exists>c. handleKeyDown ArrowDown t rowIndex header g =
                  Inr (g\<lparr>selectedCell := Some \<lparr>row = int rowIndex, col = c\<rparr>\<rparr>)
                \<and> (header \<in> set (headers g) \<longrightarrow> c = Some header)))
    \<and> (indexOf (headers g) header = 0 \<longrightarrow>
           handleKeyDown ArrowLeft t rowIndex header g =
             Inr (g\<lparr>selectedCell := Some \<lparr>row = int rowIndex, col = Some header\<rparr>\<rparr>))"
proof -
  have down: "\<exists>c. handleKeyDown ArrowDown t rowIndex header g =
                  Inr (g\<lparr>selectedCell := Some \<lparr>row = int rowIndex, col = c\<rparr>\<rparr>)
                \<and> (header \<in> set (headers g) \<longrightarrow> c = Some header)"
    if "Suc rowIndex = length (data g)"
  proof -
    from that have "min (int (length (data g)) - 1) (int rowIndex + 1) = int rowIndex"
      by auto
    with assms have "handleKeyDown ArrowDown t rowIndex header g =
        Inr (g\<lparr>selectedCell := Some \<lparr>row = int rowIndex,
          col = at_index (headers g) (indexOf (headers g) header)\<rparr>\<rparr>)"
      by (simp add: handleKeyDown_def select_cell_def Let_def)
    then show ?thesis
      using at_index_indexOf [of header "headers g"] by auto
  qed
  have left: "handleKeyDown ArrowLeft t rowIndex header g =
             Inr (g\<lparr>selectedCell := Some \<lparr>row = int rowIndex, col = Some header\<rparr>\<rparr>)"
    if "indexOf (headers g) header = 0"
    using assms that indexOf_zero [OF that]
    by (simp add: handleKeyDown_def select_cell_def Let_def)
  from down left show ?thesis by blast
qed

text \<open>The example table out of edit mode: down from the last row, left from the first column.\<close>

theorem navigation_clamped_witness:
  "handleKeyDown ArrowDown [] 1 ''city'' (example_grid\<lparr>isEditing := False\<rparr>) =
     Inr (example_grid\<lparr>isEditing := False, selectedCell := Some \<lparr>row = 1, col = Some ''city''\<rparr>\<rparr>)
   \<and> handleKeyDown ArrowLeft [] 1 ''name'' (example_grid\<lparr>isEditing := False\<rparr>) =
     Inr (example_grid\<lparr>isEditing := False, selectedCell := Some \<lparr>row = 1, col = Some ''name''\<rparr>\<rparr>)"
proof -
  have n: "\<not> isEditing (example_grid\<lparr>isEditing := False\<rparr>)" by simp
  have l: "Suc 1 = length (data (example_grid\<lparr>isEditing := False\<rparr>))"
    and m: "''city'' \<in> set (headers (example_grid\<lparr>isEditing := False\<rparr>))"
    and z: "indexOf (headers (example_grid\<lparr>isEditing := False\<rparr>)) ''name'' = 0"
    by (simp_all add: example_grid_def)
  from navigation_clamped [OF n, of 1 "[]" "''city''"] l m
  have 1: "handleKeyDown ArrowDown [] 1 ''city'' (example_grid\<lparr>isEditing := False\<rparr>) =
     Inr (example_grid\<lparr>isEditing := False, selectedCell := Some \<lparr>row = 1, col = Some ''city''\<rparr>\<rparr>)"
    by auto
  from navigation_clamped [OF n, of 1 "[]" "''name''"] z
  have 2: "handleKeyDown ArrowLeft [] 1 ''name'' (example_grid\<lparr>isEditing := False\<rparr>) =
     Inr (example_grid\<lparr>isEditing := False, selectedCell := Some \<lparr>row = 1, col = Some ''name''\<rparr>\<rparr>)"
    by auto
  from 1 2 show ?thesis by blast
qed

end
